theory Spec2Isabelle
  imports Complex_Main
begin

section \<open>Errors\<close>

text \<open>
  The exceptions the modelled code throws, as values. \<open>FsError\<close> carries the
  \<open>code\<close> field of a Node file-system error (\<open>ENOENT\<close>, \<open>EACCES\<close>, ...);
  \<open>SyntaxError\<close> is what \<open>JSON.parse\<close> throws.
\<close>

datatype error =
    PropertyIsProtectedError string
  | EncodingNotSupportedError string
  | FsError string
  | SyntaxError
  | IOError

section \<open>FileSystemAdapter/Properties.ts\<close>

text \<open>
  The dead-property store is one JSON file per resource. A parsed document is an object
  whose key \<open>*\<close> holds an object from property names to values. The file system is a
  map from paths to file contents; \<open>Garbage\<close> is a file that \<open>JSON.parse\<close> rejects.
  Every call of \<open>fsp.readFile\<close> and \<open>fsp.writeFile\<close> is recorded in \<open>iolog\<close>.
\<close>

type_synonym props = "string \<rightharpoonup> (string \<rightharpoonup> string)"

datatype fsfile = Content props | Garbage

datatype io = ReadFile string | WriteFile string

record fs =
  files :: "string \<rightharpoonup> fsfile"
  denied :: "string \<Rightarrow> bool"
  iolog :: "io list"

text \<open>
  Modelled from the spec: \<open>resource.getPropFilePath()\<close> of \<open>Resource.ts\<close>, which
  is not in the sources. Of a resource only the path of its property file is used here.
\<close>

record fsresource =
  propFilePath :: string

definition readFile :: "string \<Rightarrow> fs \<Rightarrow> (error + fsfile) \<times> fs" where
  "readFile path s =
     (let s' = s\<lparr>iolog := iolog s @ [ReadFile path]\<rparr>
      in if denied s path then (Inl (FsError ''EACCES''), s')
         else (case files s path of
                 None \<Rightarrow> (Inl (FsError ''ENOENT''), s')
               | Some f \<Rightarrow> (Inr f, s')))"

definition writeFile :: "string \<Rightarrow> props \<Rightarrow> fs \<Rightarrow> (error + unit) \<times> fs" where
  "writeFile path doc s =
     (let s' = s\<lparr>iolog := iolog s @ [WriteFile path]\<rparr>
      in if denied s path then (Inl (FsError ''EACCES''), s')
         else (Inr (), s'\<lparr>files := (files s)(path \<mapsto> Content doc)\<rparr>))"

definition liveProperties :: "string list" where
  "liveProperties =
     [''creationdate'', ''getcontentlength'', ''getcontenttype'', ''getetag'',
      ''getlastmodified'', ''lockdiscovery'', ''resourcetype'', ''supportedlock'']"

text \<open>
  \<open>props = JSON.parse((await fsp.readFile(filepath)).toString())\<close> inside
  \<open>try\<close>/\<open>catch\<close>: a missing file leaves \<open>props = {}\<close>, every other error is
  thrown again.
\<close>

definition loadProps :: "string \<Rightarrow> fs \<Rightarrow> (error + props) \<times> fs" where
  "loadProps path s =
     (case readFile path s of
        (Inl e, s') \<Rightarrow> (if e = FsError ''ENOENT'' then (Inr Map.empty, s') else (Inl e, s'))
      | (Inr Garbage, s') \<Rightarrow> (Inl SyntaxError, s')
      | (Inr (Content doc), s') \<Rightarrow> (Inr doc, s'))"

text \<open>
  The objects of a parsed document inherit from \<open>Object.prototype\<close>. These are the
  names it holds.
\<close>

definition objectPrototypeNames :: "string list" where
  "objectPrototypeNames =
     [''constructor'', ''__defineGetter__'', ''__defineSetter__'', ''hasOwnProperty'',
      ''__lookupGetter__'', ''__lookupSetter__'', ''isPrototypeOf'', ''propertyIsEnumerable'',
      ''toString'', ''valueOf'', ''__proto__'', ''toLocaleString'']"

text \<open>\<open>name in obj\<close>: the name is a key of the object or an inherited one.\<close>

definition inObject :: "string \<Rightarrow> (string \<rightharpoonup> string) \<Rightarrow> bool" where
  "inObject name obj = (name \<in> dom obj \<or> name \<in> set objectPrototypeNames)"

text \<open>
  \<open>obj[name] = value\<close> for a string \<open>value\<close>. Where \<open>__proto__\<close> is not a key of
  the object, the assignment calls the inherited setter, which ignores a string.
\<close>

definition assign :: "(string \<rightharpoonup> string) \<Rightarrow> string \<Rightarrow> string \<Rightarrow> (string \<rightharpoonup> string)" where
  "assign obj name v = (if name = ''__proto__'' \<and> name \<notin> dom obj then obj else obj(name \<mapsto> v))"

text \<open>
  The update of the parsed document in \<open>set\<close>; the second component is \<open>changed\<close>.
  The value \<open>undefined\<close> is \<open>None\<close>.
\<close>

definition updateProps :: "string \<Rightarrow> string option \<Rightarrow> props \<Rightarrow> props \<times> bool" where
  "updateProps name val doc =
     (case val of
        None \<Rightarrow>
          (case doc ''*'' of
             None \<Rightarrow> (doc, False)
           | Some star \<Rightarrow>
               (if inObject name star then (doc(''*'' \<mapsto> star(name := None)), True)
                else (doc, False)))
      | Some v \<Rightarrow>
          (let star = (case doc ''*'' of None \<Rightarrow> Map.empty | Some st \<Rightarrow> st)
           in (doc(''*'' \<mapsto> assign star name v), True)))"

definition Properties_set ::
  "fsresource \<Rightarrow> string \<Rightarrow> string option \<Rightarrow> fs \<Rightarrow> (error + unit) \<times> fs" where
  "Properties_set res name val s =
     (if name \<in> set liveProperties
      then (Inl (PropertyIsProtectedError (name @ '' is a protected property.'')), s)
      else
        (let filepath = propFilePath res
         in case loadProps filepath s of
              (Inl e, s1) \<Rightarrow> (Inl e, s1)
            | (Inr doc, s1) \<Rightarrow>
                (case updateProps name val doc of
                   (doc', changed) \<Rightarrow>
                     (if changed then writeFile filepath doc' s1 else (Inr (), s1)))))"

section \<open>FileSystemAdapter: the Lock class\<close>

text \<open>
  The lock class of the file-system adapter and the metadata document it is stored in.
  \<open>readMetadataFile\<close> and \<open>saveMetadataFile\<close> belong to \<open>Resource.ts\<close>, which is
  not part of the sources: they are the read and the write of one document per
  resource, either of which can fail. A JavaScript object used as a dictionary is a map.
\<close>

datatype depth = DepthZero | DepthInfinity

record lockEntry =
  e_username :: string
  e_date :: int
  e_timeout :: int
  e_exclusive :: bool
  e_depth :: depth
  e_provisional :: bool

record metadata =
  m_props :: "(string \<rightharpoonup> string) option"
  m_locks :: "(string \<rightharpoonup> lockEntry) option"

record fsuser =
  username :: string

record fsLock =
  l_token :: string
  l_resource :: string
  l_user :: fsuser
  l_date :: int
  l_timeout :: int
  l_exclusive :: bool
  l_depth :: depth
  l_provisional :: bool

record metastore =
  documents :: "string \<Rightarrow> metadata"
  unavailable :: "string \<Rightarrow> bool"

text \<open>
  Modelled from the spec: \<open>resource.readMetadataFile()\<close> and
  \<open>resource.saveMetadataFile(meta)\<close> of \<open>Resource.ts\<close>, which is not in the
  sources. The persisted state is one metadata document per resource; the read returns
  the document and the write replaces it, and either throws where the document is not
  available.
\<close>

definition readMetadataFile :: "string \<Rightarrow> metastore \<Rightarrow> error + metadata" where
  "readMetadataFile res s =
     (if unavailable s res then Inl (FsError ''EACCES'') else Inr (documents s res))"

definition saveMetadataFile :: "string \<Rightarrow> metadata \<Rightarrow> metastore \<Rightarrow> error + metastore" where
  "saveMetadataFile res meta s =
     (if unavailable s res then Inl (FsError ''EACCES'')
      else Inr (s\<lparr>documents := (documents s)(res := meta)\<rparr>))"

definition entryOf :: "fsLock \<Rightarrow> lockEntry" where
  "entryOf l =
     \<lparr>e_username = username (l_user l), e_date = l_date l, e_timeout = l_timeout l,
      e_exclusive = l_exclusive l, e_depth = l_depth l, e_provisional = l_provisional l\<rparr>"

definition Lock_save :: "fsLock \<Rightarrow> metastore \<Rightarrow> error + metastore" where
  "Lock_save l s =
     (case readMetadataFile (l_resource l) s of
        Inl e \<Rightarrow> Inl e
      | Inr meta \<Rightarrow>
          (let locks = (case m_locks meta of None \<Rightarrow> Map.empty | Some ls \<Rightarrow> ls)
           in saveMetadataFile (l_resource l)
                (meta\<lparr>m_locks := Some (locks(l_token l \<mapsto> entryOf l))\<rparr>) s))"

definition Lock_delete :: "fsLock \<Rightarrow> metastore \<Rightarrow> error + metastore" where
  "Lock_delete l s =
     (case readMetadataFile (l_resource l) s of
        Inl e \<Rightarrow> Inl e
      | Inr meta \<Rightarrow>
          (case m_locks meta of
             None \<Rightarrow> Inr s
           | Some ls \<Rightarrow>
               (if l_token l \<notin> dom ls then Inr s
                else saveMetadataFile (l_resource l)
                       (meta\<lparr>m_locks := Some (ls(l_token l := None))\<rparr>) s)))"

text \<open>The locks of a document; \<open>null\<close> holds none.\<close>

definition locksOfDoc :: "metadata \<Rightarrow> string \<rightharpoonup> lockEntry" where
  "locksOfDoc meta = (case m_locks meta of None \<Rightarrow> Map.empty | Some ls \<Rightarrow> ls)"

section \<open>JavaScript strings\<close>

text \<open>
  A string is the list of its code units; the strings handled here are header values,
  which Node decodes as Latin-1, one character per byte.
\<close>

text \<open>\<open>s.split(c)\<close> for a separator of one character: never the empty list.\<close>

fun splitOn :: "char \<Rightarrow> string \<Rightarrow> string list" where
  "splitOn c [] = [[]]"
| "splitOn c (x # xs) =
     (if x = c then [] # splitOn c xs
      else (case splitOn c xs of
              [] \<Rightarrow> [[x]]
            | y # ys \<Rightarrow> (x # y) # ys))"

text \<open>\<open>pieces.join(sep)\<close>.\<close>

fun join :: "string \<Rightarrow> string list \<Rightarrow> string" where
  "join sep [] = []"
| "join sep [x] = x"
| "join sep (x # y # ys) = x @ sep @ join sep (y # ys)"

text \<open>
  White space as \<open>String.prototype.trim\<close> and \<open>parseFloat\<close> see it, among the
  characters below 256: tab, line feed, vertical tab, form feed, carriage return,
  space and the no-break space.
\<close>

definition isWhiteSpace :: "char \<Rightarrow> bool" where
  "isWhiteSpace c = ((of_char c :: nat) \<in> {9, 10, 11, 12, 13, 32, 160})"

definition trimStart :: "string \<Rightarrow> string" where
  "trimStart s = dropWhile isWhiteSpace s"

definition trim :: "string \<Rightarrow> string" where
  "trim s = rev (dropWhile isWhiteSpace (rev (dropWhile isWhiteSpace s)))"

text \<open>\<open>s.replace(/^q=/, '')\<close>.\<close>

definition stripQ :: "string \<Rightarrow> string" where
  "stripQ s = (if take 2 s = ''q='' then drop 2 s else s)"

subsection \<open>Numbers and \<open>parseFloat\<close>\<close>

text \<open>
  A JavaScript number is \<open>NaN\<close>, an infinity or a finite double, held as the rational
  it stands for; the two zeros are one value, which no comparison here tells apart.
\<close>

datatype number = NaN | NegInfinity | Finite rat | PosInfinity

text \<open>The number of binary digits of a positive integer.\<close>

function bitLength :: "int \<Rightarrow> int" where
  "bitLength n = (if n \<le> 0 then 0 else 1 + bitLength (n div 2))"
  by pat_completeness auto

termination by (relation "measure nat") auto

declare bitLength.simps [simp del]

text \<open>The integer part of the binary logarithm of \<open>p / q\<close>, for positive \<open>p\<close> and \<open>q\<close>.\<close>

definition floorLog2 :: "int \<Rightarrow> int \<Rightarrow> int" where
  "floorLog2 p q =
     (let e0 = bitLength p - bitLength q
      in if (if 0 \<le> e0 then q * 2 ^ nat e0 \<le> p else q \<le> p * 2 ^ nat (- e0))
         then e0 else e0 - 1)"

text \<open>The integer nearest to \<open>num / den\<close>, the even one of two that are equally near.\<close>

definition roundHalfEven :: "int \<Rightarrow> int \<Rightarrow> int" where
  "roundHalfEven num den =
     (let d = num div den; r = num mod den
      in if 2 * r < den then d
         else if den < 2 * r then d + 1
         else if even d then d else d + 1)"

definition scale2 :: "rat \<Rightarrow> int \<Rightarrow> rat" where
  "scale2 m e = (if 0 \<le> e then m * 2 ^ nat e else m / 2 ^ nat (- e))"

text \<open>
  The Number value for the mathematical value \<open>p / q\<close> (\<open>0 \<le> p\<close>, \<open>0 < q\<close>): the
  nearest double, with a significand of 53 bits and the least exponent \<open>-1074\<close>, the
  one with the even significand of two that are equally near, and \<open>Infinity\<close> from
  \<open>2 ^ 1024\<close> on.
\<close>

definition toDouble :: "int \<Rightarrow> int \<Rightarrow> number" where
  "toDouble p q =
     (if p = 0 then Finite 0
      else
        (let ex = max (floorLog2 p q) (- 1022) - 52
         in if 971 < ex then PosInfinity
            else
              (let n = (if 0 \<le> ex then roundHalfEven p (q * 2 ^ nat ex)
                        else roundHalfEven (p * 2 ^ nat (- ex)) q)
               in if ex = 971 \<and> 2 ^ 53 \<le> n then PosInfinity
                  else Finite (scale2 (of_int n) ex))))"

text \<open>
  \<open>parseFloat\<close> reads the longest prefix of the trimmed string that is a
  \<open>StrDecimalLiteral\<close>; its result is the Number value for the decimal value of that
  prefix.
\<close>

definition isDigit :: "char \<Rightarrow> bool" where
  "isDigit c = (48 \<le> (of_char c :: nat) \<and> (of_char c :: nat) \<le> 57)"

definition digitsVal :: "string \<Rightarrow> int" where
  "digitsVal ds = foldl (\<lambda>a c. 10 * a + (of_char c - 48)) 0 ds"

text \<open>The exponent of an \<open>ExponentPart\<close> at the head of the string, 0 when there is none.\<close>

definition exponentPart :: "string \<Rightarrow> int" where
  "exponentPart s =
     (case s of
        [] \<Rightarrow> 0
      | c # t \<Rightarrow>
          (if c = CHR ''e'' \<or> c = CHR ''E'' then
             (case t of
                [] \<Rightarrow> 0
              | d # u \<Rightarrow>
                  (if d = CHR ''+'' then digitsVal (takeWhile isDigit u)
                   else if d = CHR ''-'' then - digitsVal (takeWhile isDigit u)
                   else digitsVal (takeWhile isDigit t)))
           else 0))"

definition parseUnsigned :: "string \<Rightarrow> number" where
  "parseUnsigned s =
     (if take 8 s = ''Infinity'' then PosInfinity
      else
        (let ip = takeWhile isDigit s;
             r1 = dropWhile isDigit s;
             fp = (case r1 of [] \<Rightarrow> [] | c # t \<Rightarrow> if c = CHR ''.'' then takeWhile isDigit t else []);
             r2 = (case r1 of [] \<Rightarrow> [] | c # t \<Rightarrow> if c = CHR ''.'' then dropWhile isDigit t else r1);
             e = exponentPart r2 - int (length fp)
         in if ip = [] \<and> fp = [] then NaN
            else if 0 \<le> e then toDouble (digitsVal (ip @ fp) * 10 ^ nat e) 1
            else toDouble (digitsVal (ip @ fp)) (10 ^ nat (- e))))"

fun negate :: "number \<Rightarrow> number" where
  "negate NaN = NaN"
| "negate NegInfinity = PosInfinity"
| "negate (Finite x) = Finite (- x)"
| "negate PosInfinity = NegInfinity"

definition parseFloat :: "string \<Rightarrow> number" where
  "parseFloat s =
     (case trimStart s of
        [] \<Rightarrow> NaN
      | c # t \<Rightarrow>
          (if c = CHR ''+'' then parseUnsigned t
           else if c = CHR ''-'' then negate (parseUnsigned t)
           else parseUnsigned (c # t)))"

text \<open>The difference \<open>a - b\<close> of two numbers.\<close>

fun numSub :: "number \<Rightarrow> number \<Rightarrow> number" where
  "numSub NaN b = NaN"
| "numSub a NaN = NaN"
| "numSub (Finite x) (Finite y) = Finite (x - y)"
| "numSub (Finite x) PosInfinity = NegInfinity"
| "numSub (Finite x) NegInfinity = PosInfinity"
| "numSub PosInfinity PosInfinity = NaN"
| "numSub PosInfinity b = PosInfinity"
| "numSub NegInfinity NegInfinity = NaN"
| "numSub NegInfinity b = NegInfinity"

fun isPositive :: "number \<Rightarrow> bool" where
  "isPositive (Finite x) = (0 < x)"
| "isPositive PosInfinity = True"
| "isPositive n = False"

subsection \<open>\<open>Array.prototype.sort\<close>\<close>

text \<open>
  With a consistent comparator \<open>xs.sort(cmp)\<close> is a stable sort: \<open>x\<close> goes after
  \<open>y\<close> where \<open>cmp(x, y) > 0\<close>, and elements that compare as equal (the comparator
  returns 0 or \<open>NaN\<close>) keep their order. It is written as an insertion sort.
\<close>

fun insertBy :: "('a \<Rightarrow> 'a \<Rightarrow> number) \<Rightarrow> 'a \<Rightarrow> 'a list \<Rightarrow> 'a list" where
  "insertBy cmp x [] = [x]"
| "insertBy cmp x (y # ys) =
     (if isPositive (cmp x y) then y # insertBy cmp x ys else x # y # ys)"

definition sortBy :: "('a \<Rightarrow> 'a \<Rightarrow> number) \<Rightarrow> 'a list \<Rightarrow> 'a list" where
  "sortBy cmp xs = foldr (insertBy cmp) xs []"

text \<open>
  The comparator \<open>(a, b) => b[1] - a[1]\<close> is consistent for a list of entries with the
  numbers \<open>qs\<close> where none of them is \<open>NaN\<close>, or where no difference of two of them is
  positive: a \<open>NaN\<close> compares as equal to every number, so that with a \<open>NaN\<close> among
  them all of them have to compare as equal.
\<close>

definition consistentComparator :: "number list \<Rightarrow> bool" where
  "consistentComparator qs =
     (if NaN \<in> set qs
      then list_all (\<lambda>a. list_all (\<lambda>b. \<not> isPositive (numSub b a)) qs) qs
      else True)"

section \<open>Methods/Method.ts: requests\<close>

text \<open>
  Of an Express request the method (\<open>request.method\<close>), the mount path \<open>baseUrl\<close> and the headers are
  used. \<open>request.get(name)\<close> looks a header up; the map is keyed by the spelling the
  code uses.
\<close>

record request =
  httpMethod :: string
  baseUrl :: string
  headers :: "string \<rightharpoonup> string"

definition get :: "request \<Rightarrow> string \<Rightarrow> string option" where
  "get req name = headers req name"

text \<open>\<open>request.get(name) || dflt\<close>: an absent and an empty header give the default.\<close>

definition getOr :: "request \<Rightarrow> string \<Rightarrow> string \<Rightarrow> string" where
  "getOr req name dflt =
     (case get req name of None \<Rightarrow> dflt | Some h \<Rightarrow> if h = [] then dflt else h)"

subsection \<open>The platform\<close>

text \<open>A header value is a string or a number.\<close>

datatype hvalue = Str string | Num nat

text \<open>
  The parts of the platform the functions call: the three compressors of \<open>zlib\<close>,
  the new value the \<open>vary\<close> package gives the \<open>Vary\<close> header, the
  \<open>compression\<close> option of the server, and the order in which
  \<open>Array.prototype.sort\<close> leaves a list of entries for which the comparator is not
  consistent, which ECMAScript leaves to the implementation.
\<close>

record platform =
  gzipSync :: "nat list \<Rightarrow> nat list"
  deflateSync :: "nat list \<Rightarrow> nat list"
  brotliCompressSync :: "nat list \<Rightarrow> nat list"
  varyAppend :: "hvalue option \<Rightarrow> string \<Rightarrow> hvalue option"
  compression :: bool
  sortImplDefined :: "(string \<times> number) list \<Rightarrow> (string \<times> number) list"

subsection \<open>getRequestedEncoding\<close>

definition supported :: "string list" where
  "supported = [''gzip'', ''deflate'', ''br'', ''identity'']"

text \<open>
  One element of the header, \<open>value.trim().split(';')\<close>, as the pair of its name and
  \<open>parseFloat(value[1]?.replace(/^q=/, '') || '1.0')\<close>.
\<close>

definition parseEntry :: "string \<Rightarrow> string \<times> number" where
  "parseEntry v =
     (let parts = splitOn CHR '';'' (trim v);
          q = (case tl parts of
                 [] \<Rightarrow> ''1.0''
               | p # _ \<Rightarrow> if stripQ p = [] then ''1.0'' else stripQ p)
      in (hd parts, parseFloat q))"

text \<open>\<open>encodings.sort((a, b) => b[1] - a[1])\<close>.\<close>

definition sortEncodings :: "platform \<Rightarrow> (string \<times> number) list \<Rightarrow> (string \<times> number) list" where
  "sortEncodings pf encodings =
     (if consistentComparator (map snd encodings)
      then sortBy (\<lambda>a b. numSub (snd b) (snd a)) encodings
      else sortImplDefined pf encodings)"

definition parseAcceptEncoding :: "platform \<Rightarrow> string \<Rightarrow> (string \<times> number) list" where
  "parseAcceptEncoding pf h = sortEncodings pf (map parseEntry (splitOn CHR '','' h))"

text \<open>
  The \<open>while\<close> loop: entries are taken from the front until one is a supported
  encoding, \<open>x-gzip\<close> or \<open>*\<close>; the rest of the list stays in \<open>encodings\<close>.
\<close>

fun pick :: "(string \<times> number) list \<Rightarrow> error + string \<times> (string \<times> number) list" where
  "pick [] = Inl (EncodingNotSupportedError ''Requested content encoding is not supported.'')"
| "pick (e # es) =
     (if fst e \<in> set (supported @ [''x-gzip'', ''*'']) then Inr (fst e, es) else pick es)"

definition getRequestedEncoding :: "platform \<Rightarrow> request \<Rightarrow> error + string" where
  "getRequestedEncoding pf req =
     (let acceptEncoding = getOr req ''Accept-Encoding'' ''identity, *;q=0.5''
      in case pick (parseAcceptEncoding pf acceptEncoding) of
           Inl e \<Rightarrow> Inl e
         | Inr (encoding, encodings) \<Rightarrow>
             Inr (if encoding = ''*''
                  then (case find (\<lambda>check. find (\<lambda>e. check = fst e) encodings = None) supported of
                          None \<Rightarrow> ''gzip''
                        | Some c \<Rightarrow> c)
                  else encoding))"

subsection \<open>sendBodyContent\<close>

text \<open>The response holds its headers and the body handed to \<open>response.send\<close>.\<close>

record response =
  r_headers :: "string \<rightharpoonup> hvalue"
  r_sent :: "nat list option"

text \<open>
  \<open>Buffer.from(content, 'utf-8')\<close>: the content is the list of its code points; a
  surrogate is written as U+FFFD.
\<close>

definition utf8Char :: "nat \<Rightarrow> nat list" where
  "utf8Char c =
     (if c < 128 then [c]
      else if c < 2048 then [192 + c div 64, 128 + c mod 64]
      else if 55296 \<le> c \<and> c < 57344 then [239, 191, 189]
      else if c < 65536 then [224 + c div 4096, 128 + (c div 64) mod 64, 128 + c mod 64]
      else [240 + c div 262144, 128 + (c div 4096) mod 64, 128 + (c div 64) mod 64,
            128 + c mod 64])"

definition utf8 :: "nat list \<Rightarrow> nat list" where
  "utf8 content = concat (map utf8Char content)"

text \<open>
  White space as the class \<open>\s\<close> of a regular expression sees it, among the characters
  below 256: the same characters as for \<open>trim\<close>.
  \<open>cacheControl.match(/(?:^|,)\s*?no-transform\s*?(?:,|$)/)\<close> finds a match where
  one of the pieces between commas is \<open>no-transform\<close> with white space around it.
\<close>

definition noTransform :: "hvalue option \<Rightarrow> bool" where
  "noTransform cacheControl =
     (case cacheControl of
        Some (Str cc) \<Rightarrow> (\<exists>piece \<in> set (splitOn CHR '','' cc). trim piece = ''no-transform'')
      | _ \<Rightarrow> False)"

definition vary :: "platform \<Rightarrow> response \<Rightarrow> string \<Rightarrow> response" where
  "vary pf resp field =
     resp\<lparr>r_headers := (r_headers resp)(''Vary'' := varyAppend pf (r_headers resp ''Vary'') field)\<rparr>"

definition transform :: "platform \<Rightarrow> string \<Rightarrow> nat list \<Rightarrow> nat list" where
  "transform pf encoding content =
     (if encoding = ''gzip'' \<or> encoding = ''x-gzip'' then gzipSync pf content
      else if encoding = ''deflate'' then deflateSync pf content
      else if encoding = ''br'' then brotliCompressSync pf content
      else content)"

definition sendBodyContent :: "platform \<Rightarrow> response \<Rightarrow> nat list \<Rightarrow> string \<Rightarrow> response" where
  "sendBodyContent pf response0 content encoding =
     (let response1 = vary pf response0 ''Accept-Encoding'';
          cacheControl = r_headers response1 ''Cache-Control''
      in if \<not> compression pf \<or> encoding = ''identity'' \<or> noTransform cacheControl
         then
           (let unencodedContent = utf8 content
            in response1\<lparr>r_headers := (r_headers response1)
                            (''Content-Length'' \<mapsto> Num (length unencodedContent)),
                          r_sent := Some unencodedContent\<rparr>)
         else
           (let unencodedContent = utf8 content;
                encodedContent = transform pf encoding unencodedContent
            in response1\<lparr>r_headers := (r_headers response1)
                            (''Content-Encoding'' \<mapsto> Str encoding,
                             ''Content-Length'' \<mapsto> Num (length encodedContent)),
                          r_sent := Some encodedContent\<rparr>))"

section \<open>Methods/Method.ts: the lock engine\<close>

subsection \<open>Locks and the adapter\<close>

text \<open>
  A lock as the core sees it through the \<open>Lock\<close> interface: the fields
  \<open>Method.ts\<close> reads, the canonical URL path of the resource it is on and the
  username of its principal. \<open>date\<close> is \<open>date.getTime()\<close>, in milliseconds.
\<close>

record lock =
  token :: string
  ofResource :: string
  principal :: string
  date :: int
  timeout :: int
  scope :: string
  depth :: depth
  provisional :: bool

text \<open>
  The adapter behind the core. A resource is its canonical URL path.
  \<open>storedLocks s r\<close> is what \<open>resource.getLocks()\<close> returns for \<open>r\<close>;
  \<open>failing s r\<close> says that the lock store of \<open>r\<close> cannot be changed. The
  wall clock is the sequence of its readings, \<open>ticks\<close> counts the readings made.
  \<open>deleteLog\<close> records every call of \<open>lock.delete()\<close>.
\<close>

record adapter =
  storedLocks :: "string \<Rightarrow> lock list"
  failing :: "string \<Rightarrow> bool"
  clock :: "nat \<Rightarrow> int"
  ticks :: nat
  deleteLog :: "lock list"

text \<open>\<open>new Date().getTime()\<close>.\<close>

definition getTime :: "adapter \<Rightarrow> int \<times> adapter" where
  "getTime s = (clock s (ticks s), s\<lparr>ticks := Suc (ticks s)\<rparr>)"

text \<open>
  Modelled from the spec: \<open>lock.delete()\<close> of the adapter contract, whose
  implementation behind the \<open>Lock\<close> interface is not in the sources. Locks are kept
  per resource and keyed by token, as the \<open>delete\<close> of the file-system lock class does it:
  the entry with the token of the lock is removed from the store of its resource, or
  the call throws.
\<close>

definition lockDelete :: "lock \<Rightarrow> adapter \<Rightarrow> (error + unit) \<times> adapter" where
  "lockDelete l s =
     (let s' = s\<lparr>deleteLog := deleteLog s @ [l]\<rparr>
      in if failing s (ofResource l) then (Inl IOError, s')
         else (Inr (),
               s'\<lparr>storedLocks := (storedLocks s)
                     (ofResource l :=
                        filter (\<lambda>k. token k \<noteq> token l) (storedLocks s (ofResource l)))\<rparr>))"

text \<open>
  Modelled from the spec: \<open>resource.getLocksByUser(user)\<close> of the adapter contract,
  the locks of the resource whose principal is the user.
\<close>

definition resourceLocksByUser :: "adapter \<Rightarrow> string \<Rightarrow> string \<Rightarrow> lock list" where
  "resourceLocksByUser s r u = filter (\<lambda>l. principal l = u) (storedLocks s r)"

subsection \<open>Expiry\<close>

fun removeAndDeleteTimedOutLocks :: "lock list \<Rightarrow> adapter \<Rightarrow> lock list \<times> adapter" where
  "removeAndDeleteTimedOutLocks [] s = ([], s)"
| "removeAndDeleteTimedOutLocks (l # ls) s =
     (case getTime s of
        (t, s1) \<Rightarrow>
          (if date l + timeout l \<le> t
           then (case lockDelete l s1 of (_, s2) \<Rightarrow> removeAndDeleteTimedOutLocks ls s2)
           else (case removeAndDeleteTimedOutLocks ls s1 of
                   (currentLocks, s2) \<Rightarrow> (l # currentLocks, s2))))"

definition getCurrentResourceLocks :: "string \<Rightarrow> adapter \<Rightarrow> lock list \<times> adapter" where
  "getCurrentResourceLocks r s = removeAndDeleteTimedOutLocks (storedLocks s r) s"

definition getCurrentResourceLocksByUser ::
  "string \<Rightarrow> string \<Rightarrow> adapter \<Rightarrow> lock list \<times> adapter" where
  "getCurrentResourceLocksByUser r u s =
     removeAndDeleteTimedOutLocks (resourceLocksByUser s r u) s"

subsection \<open>getParentResource\<close>

text \<open>\<open>s.replace(/(?:$|\/$)/, () => '')\<close> takes one slash from the end.\<close>

definition stripSlash :: "string \<Rightarrow> string" where
  "stripSlash s = (if s \<noteq> [] \<and> last s = CHR ''/'' then butlast s else s)"

text \<open>\<open>s.replace(/(?:$|\/$)/, () => '/')\<close> puts one slash at an end that has none.\<close>

definition ensureSlash :: "string \<Rightarrow> string" where
  "ensureSlash s = (if s \<noteq> [] \<and> last s = CHR ''/'' then s else s @ ''/'')"

definition newPath :: "string \<Rightarrow> string" where
  "newPath pathname =
     (let splitPath = splitOn CHR ''/'' (stripSlash pathname)
      in ensureSlash (join ''/'' (butlast splitPath)))"

text \<open>
  Modelled from the spec: \<open>resource.getCanonicalUrl\<close> and \<open>adapter.getResource\<close>
  are not in the sources. A resource is identified by the path of its canonical URL, and
  the resource the adapter returns for the path of a collection has that path.
  \<open>None\<close> is \<open>undefined\<close>.
\<close>

definition getParentResource :: "request \<Rightarrow> string \<Rightarrow> string option" where
  "getParentResource req r =
     (if newPath r = ensureSlash (baseUrl req) then None else Some (newPath r))"

subsection \<open>The lock views\<close>

record locks =
  all :: "lock list"
  resource :: "lock list"
  depthZero :: "lock list"
  depthInfinity :: "lock list"

text \<open>The body of the inner \<open>for\<close> loop of \<open>getLocksGeneral\<close>.\<close>

definition addParentLock :: "bool \<Rightarrow> locks \<Rightarrow> lock \<Rightarrow> locks" where
  "addParentLock firstLevelParent ls l =
     (if depth l = DepthInfinity
      then ls\<lparr>depthInfinity := depthInfinity ls @ [l], all := all ls @ [l]\<rparr>
      else if firstLevelParent \<and> depth l = DepthZero
      then ls\<lparr>depthZero := depthZero ls @ [l], all := all ls @ [l]\<rparr>
      else ls)"

text \<open>The \<open>while (parent)\<close> loop; it has no result where the loop does not end.\<close>

partial_function (option) parentLoop ::
  "request \<Rightarrow> (string \<Rightarrow> adapter \<Rightarrow> lock list \<times> adapter) \<Rightarrow> string option \<Rightarrow> bool \<Rightarrow>
   locks \<Rightarrow> adapter \<Rightarrow> (locks \<times> adapter) option" where
  "parentLoop req getLocksOf parent firstLevelParent ls s =
     (case parent of
        None \<Rightarrow> Some (ls, s)
      | Some p \<Rightarrow>
          (case getLocksOf p s of
             (parentLocks, s1) \<Rightarrow>
               parentLoop req getLocksOf (getParentResource req p) False
                 (foldl (addParentLock firstLevelParent) ls parentLocks) s1))"

declare parentLoop.simps [code]

definition getLocksGeneral ::
  "request \<Rightarrow> string \<Rightarrow> (string \<Rightarrow> adapter \<Rightarrow> lock list \<times> adapter) \<Rightarrow> adapter \<Rightarrow>
   (locks \<times> adapter) option" where
  "getLocksGeneral req r getLocksOf s =
     (case getLocksOf r s of
        (resourceLocks, s1) \<Rightarrow>
          parentLoop req getLocksOf (getParentResource req r) True
            \<lparr>all = resourceLocks, resource = resourceLocks, depthZero = [],
             depthInfinity = []\<rparr> s1)"

definition currentNonProvisional :: "string \<Rightarrow> adapter \<Rightarrow> lock list \<times> adapter" where
  "currentNonProvisional r s =
     (case getCurrentResourceLocks r s of
        (ls, s') \<Rightarrow> (filter (\<lambda>l. \<not> provisional l) ls, s'))"

definition currentNonProvisionalByUser ::
  "string \<Rightarrow> string \<Rightarrow> adapter \<Rightarrow> lock list \<times> adapter" where
  "currentNonProvisionalByUser u r s =
     (case getCurrentResourceLocksByUser r u s of
        (ls, s') \<Rightarrow> (filter (\<lambda>l. \<not> provisional l) ls, s'))"

definition getLocks :: "request \<Rightarrow> string \<Rightarrow> adapter \<Rightarrow> (locks \<times> adapter) option" where
  "getLocks req r s = getLocksGeneral req r currentNonProvisional s"

definition getLocksByUser ::
  "request \<Rightarrow> string \<Rightarrow> string \<Rightarrow> adapter \<Rightarrow> (locks \<times> adapter) option" where
  "getLocksByUser req r u s = getLocksGeneral req r (currentNonProvisionalByUser u) s"

subsection \<open>getRequestLockTockens\<close>

text \<open>
  The regular expression
  \<open><urn:uuid:[0-9a-f]{8}-[0-9a-f]{4}-[0-9a-f]{4}-[0-9a-f]{4}-[0-9a-f]{12}>\<close> as the
  list of its 47 positions, each a literal character or a lower-case hexadecimal digit.
\<close>

datatype cls = Lit char | Hex

definition isHex :: "char \<Rightarrow> bool" where
  "isHex c = (isDigit c \<or> (97 \<le> (of_char c :: nat) \<and> (of_char c :: nat) \<le> 102))"

fun matchesAt :: "cls list \<Rightarrow> string \<Rightarrow> bool" where
  "matchesAt [] s = True"
| "matchesAt (p # ps) [] = False"
| "matchesAt (Lit c # ps) (x # xs) = (x = c \<and> matchesAt ps xs)"
| "matchesAt (Hex # ps) (x # xs) = (isHex x \<and> matchesAt ps xs)"

definition tokenPattern :: "cls list" where
  "tokenPattern =
     map Lit ''<urn:uuid:'' @ replicate 8 Hex @ [Lit CHR ''-''] @ replicate 4 Hex @
     [Lit CHR ''-''] @ replicate 4 Hex @ [Lit CHR ''-''] @ replicate 4 Hex @
     [Lit CHR ''-''] @ replicate 12 Hex @ [Lit CHR ''>'']"

text \<open>
  \<open>s.match(re)\<close> with the flag \<open>g\<close>: the matches from left to right, the search going
  on behind each match. Every match has the length of the pattern.
\<close>

function matchAll :: "cls list \<Rightarrow> string \<Rightarrow> string list" where
  "matchAll pat s =
     (if s = [] \<or> pat = [] then []
      else if matchesAt pat s then take (length pat) s # matchAll pat (drop (length pat) s)
      else matchAll pat (tl s))"
  by pat_completeness auto
termination
  by (relation "measure (\<lambda>(pat, s). length s)") auto

text \<open>\<open>match.slice(1, -1)\<close>.\<close>

definition slice1 :: "string \<Rightarrow> string" where
  "slice1 m = butlast (tl m)"

definition getRequestLockTockens :: "request \<Rightarrow> string list" where
  "getRequestLockTockens req =
     (let ifHeader = getOr req ''If'' []
      in map slice1 (matchAll tokenPattern ifHeader))"

subsection \<open>getLockPermission\<close>

text \<open>
  One of the three \<open>for\<close> loops of the \<open>LOCK\<close> branch: \<open>Inl ret\<close> where the loop
  returns from the function, \<open>Inr code\<close> where it ends.
\<close>

fun scanLocks :: "nat \<Rightarrow> lock list \<Rightarrow> nat \<Rightarrow> nat + nat" where
  "scanLocks ret [] code = Inr code"
| "scanLocks ret (l # ls) code =
     (if scope l = ''exclusive'' then Inl ret
      else if scope l = ''shared'' then scanLocks ret ls 3
      else scanLocks ret ls code)"

definition lockMethodCode :: "locks \<Rightarrow> nat" where
  "lockMethodCode ls =
     (case scanLocks 0 (resource ls) 0 of
        Inl ret \<Rightarrow> ret
      | Inr code1 \<Rightarrow>
          (case scanLocks 0 (depthInfinity ls) code1 of
             Inl ret \<Rightarrow> ret
           | Inr code2 \<Rightarrow>
               (case scanLocks 1 (depthZero ls) code2 of
                  Inl ret \<Rightarrow> ret
                | Inr code3 \<Rightarrow> code3)))"

definition otherMethodCode :: "locks \<Rightarrow> nat" where
  "otherMethodCode ls =
     (if depthInfinity ls \<noteq> [] \<or> resource ls \<noteq> [] then 0
      else if depthZero ls \<noteq> [] then 1
      else 0)"

definition getLockPermission ::
  "request \<Rightarrow> string \<Rightarrow> string \<Rightarrow> adapter \<Rightarrow> (nat \<times> adapter) option" where
  "getLockPermission req r u s =
     (case getLocks req r s of
        None \<Rightarrow> None
      | Some (ls, s1) \<Rightarrow>
          (let lockTokens = getRequestLockTockens req
           in if all ls = [] then Some (2, s1)
              else
                (case getLocksByUser req r u s1 of
                   None \<Rightarrow> None
                 | Some (userLocks, s2) \<Rightarrow>
                     (if find (\<lambda>userLock. token userLock \<in> set lockTokens) (all userLocks) \<noteq> None
                      then Some (2, s2)
                      else if httpMethod req = ''LOCK'' then Some (lockMethodCode ls, s2)
                      else Some (otherMethodCode ls, s2)))))"

section \<open>Notions used in the statements\<close>

subsection \<open>Paths\<close>

text \<open>The part of a string before the last occurrence of a character, empty if there is none.\<close>

definition beforeLast :: "char \<Rightarrow> string \<Rightarrow> string" where
  "beforeLast c s = rev (tl (dropWhile (\<lambda>x. x \<noteq> c) (rev s)))"

text \<open>
  The walk up from the resource ends at the mount path of the server: the path above the
  resource is the mount path, or the resource lies strictly below the mount path and the
  mount path does not end in two slashes.
\<close>

definition underBase :: "request \<Rightarrow> string \<Rightarrow> bool" where
  "underBase req r =
     (let b = ensureSlash (baseUrl req)
      in newPath r = b \<or>
         (length b < length r \<and> take (length b) r = b \<and>
          (butlast b = [] \<or> last (butlast b) \<noteq> CHR ''/'')))"

text \<open>The resources the \<open>while\<close> loop of \<open>getLocksGeneral\<close> visits, in order.\<close>

inductive parentChain :: "request \<Rightarrow> string option \<Rightarrow> string list \<Rightarrow> bool" where
  chainEnd: "parentChain req None []"
| chainStep: "parentChain req (getParentResource req p) ps \<Longrightarrow> parentChain req (Some p) (p # ps)"

text \<open>The loop run over a given list of parents.\<close>

fun visitParents ::
  "(string \<Rightarrow> adapter \<Rightarrow> lock list \<times> adapter) \<Rightarrow> bool \<Rightarrow> locks \<Rightarrow> string list \<Rightarrow> adapter \<Rightarrow>
   locks \<times> adapter" where
  "visitParents getLocksOf firstLevelParent ls [] s = (ls, s)"
| "visitParents getLocksOf firstLevelParent ls (p # ps) s =
     (case getLocksOf p s of
        (parentLocks, s1) \<Rightarrow>
          visitParents getLocksOf False
            (foldl (addParentLock firstLevelParent) ls parentLocks) ps s1)"

subsection \<open>Time and the lock store\<close>

text \<open>A lock is expired at the time \<open>t\<close>.\<close>

definition expired :: "int \<Rightarrow> lock \<Rightarrow> bool" where
  "expired t l = (date l + timeout l \<le> t)"

text \<open>Every reading of the clock from now on is \<open>t\<close>: the call takes no time.\<close>

definition constClock :: "adapter \<Rightarrow> int \<Rightarrow> bool" where
  "constClock s t = (\<forall>n. ticks s \<le> n \<longrightarrow> clock s n = t)"

text \<open>
  The lock store is well formed: the locks of a resource have different tokens, and
  each names the resource it is stored on.
\<close>

definition wfStore :: "adapter \<Rightarrow> bool" where
  "wfStore s =
     (\<forall>p. distinct (map token (storedLocks s p)) \<and>
          (\<forall>l \<in> set (storedLocks s p). ofResource l = p))"

text \<open>
  What \<open>removeAndDeleteTimedOutLocks\<close> keeps of a list, given the clock and the
  number of readings made before.
\<close>

fun currentAt :: "(nat \<Rightarrow> int) \<Rightarrow> nat \<Rightarrow> lock list \<Rightarrow> lock list" where
  "currentAt c n [] = []"
| "currentAt c n (l # ls) =
     (if expired (c n) l then currentAt c (Suc n) ls else l # currentAt c (Suc n) ls)"

text \<open>
  The lock views as a function of the locks each resource holds: \<open>G\<close> gives the
  locks of a resource, \<open>ps\<close> is the list of the parents visited.
\<close>

fun viewsOver :: "(string \<Rightarrow> lock list) \<Rightarrow> bool \<Rightarrow> locks \<Rightarrow> string list \<Rightarrow> locks" where
  "viewsOver G firstLevelParent ls [] = ls"
| "viewsOver G firstLevelParent ls (p # ps) =
     viewsOver G False (foldl (addParentLock firstLevelParent) ls (G p)) ps"

definition viewsOf :: "(string \<Rightarrow> lock list) \<Rightarrow> string \<Rightarrow> string list \<Rightarrow> locks" where
  "viewsOf G r ps =
     viewsOver G True \<lparr>all = G r, resource = G r, depthZero = [], depthInfinity = []\<rparr> ps"

definition filterLocks :: "(lock \<Rightarrow> bool) \<Rightarrow> locks \<Rightarrow> locks" where
  "filterLocks P ls =
     \<lparr>all = filter P (all ls), resource = filter P (resource ls),
      depthZero = filter P (depthZero ls), depthInfinity = filter P (depthInfinity ls)\<rparr>"

text \<open>The permission code as a function of the lock views.\<close>

definition permissionOf :: "request \<Rightarrow> string \<Rightarrow> locks \<Rightarrow> nat" where
  "permissionOf req u ls =
     (if all ls = [] then 2
      else if \<exists>l \<in> set (all ls). principal l = u \<and> token l \<in> set (getRequestLockTockens req)
      then 2
      else if httpMethod req = ''LOCK'' then lockMethodCode ls
      else otherMethodCode ls)"

text \<open>
  The state of the adapter while a call runs that takes no time: the store is well
  formed, the clock stands at \<open>t\<close>, and \<open>L\<close> gives the unexpired locks of each
  resource.
\<close>

definition steady :: "int \<Rightarrow> (string \<Rightarrow> lock list) \<Rightarrow> adapter \<Rightarrow> bool" where
  "steady t L s =
     (wfStore s \<and> constClock s t \<and>
      (\<forall>p. filter (\<lambda>l. \<not> expired t l) (storedLocks s p) = L p))"

text \<open>The locks in the views.\<close>

definition locksIn :: "locks \<Rightarrow> lock set" where
  "locksIn ls = set (all ls) \<union> set (resource ls) \<union> set (depthZero ls) \<union> set (depthInfinity ls)"

text \<open>The state after \<open>n\<close> or more readings of the clock \<open>c\<close>.\<close>

definition atOrAfter :: "(nat \<Rightarrow> int) \<Rightarrow> nat \<Rightarrow> adapter \<Rightarrow> bool" where
  "atOrAfter c n s = (clock s = c \<and> n \<le> ticks s)"

subsection \<open>Ownership as the specification words it\<close>



subsection \<open>The entries of the \<open>Accept-Encoding\<close> header\<close>

text \<open>
  The entries of the header the function works on, in the order of the header: the
  default takes the place of an absent or empty header.
\<close>

definition headerEntries :: "request \<Rightarrow> (string \<times> number) list" where
  "headerEntries req =
     map parseEntry (splitOn CHR '','' (getOr req ''Accept-Encoding'' ''identity, *;q=0.5''))"

text \<open>A name that is a supported encoding, \<open>x-gzip\<close> or \<open>*\<close>.\<close>

definition isRecognised :: "string \<Rightarrow> bool" where
  "isRecognised n = (n \<in> {''gzip'', ''x-gzip'', ''deflate'', ''br'', ''identity'', ''*''})"

definition recognisedEntries :: "request \<Rightarrow> (string \<times> number) list" where
  "recognisedEntries req = filter (\<lambda>e. isRecognised (fst e)) (headerEntries req)"

text \<open>
  The first of \<open>gzip\<close>, \<open>deflate\<close>, \<open>br\<close>, \<open>identity\<close> that is not among the
  names, or \<open>gzip\<close>.
\<close>

definition firstUnlisted :: "string list \<Rightarrow> string" where
  "firstUnlisted names =
     (case find (\<lambda>c. c \<notin> set names) supported of None \<Rightarrow> ''gzip'' | Some c \<Rightarrow> c)"

fun isFinite :: "number \<Rightarrow> bool" where
  "isFinite (Finite x) = True"
| "isFinite n = False"

fun qOf :: "number \<Rightarrow> rat" where
  "qOf (Finite x) = x"
| "qOf n = 0"

text \<open>
  The view \<open>all\<close> holds the locks of the three other views, and the views of the
  parents hold locks of their depth.
\<close>

definition viewsOk :: "locks \<Rightarrow> bool" where
  "viewsOk ls =
     (set (all ls) = set (resource ls) \<union> set (depthZero ls) \<union> set (depthInfinity ls) \<and>
      (\<forall>l \<in> set (depthZero ls). depth l = DepthZero) \<and>
      (\<forall>l \<in> set (depthInfinity ls). depth l = DepthInfinity))"

section \<open>Example inputs\<close>

text \<open>
  The server is mounted at \<open>/dav\<close>. Alice holds a shared lock of depth 0 on the
  collection \<open>/dav/x/\<close>; the clock stands at 1000.
\<close>

definition exLock :: lock where
  "exLock = \<lparr>token = ''urn:uuid:01234567-89ab-cdef-0123-456789abcdef'', ofResource = ''/dav/x/'',
             principal = ''alice'', date = 0, timeout = 5000, scope = ''shared'',
             depth = DepthZero, provisional = False\<rparr>"

definition exAdapter :: adapter where
  "exAdapter = \<lparr>storedLocks = (\<lambda>r. if r = ''/dav/x/'' then [exLock] else []),
                failing = (\<lambda>r. False), clock = (\<lambda>n. 1000), ticks = 0, deleteLog = []\<rparr>"

definition exPut :: request where
  "exPut = \<lparr>httpMethod = ''PUT'', baseUrl = ''/dav'', headers = Map.empty\<rparr>"

definition exLockReq :: request where
  "exLockReq = \<lparr>httpMethod = ''LOCK'', baseUrl = ''/dav'', headers = Map.empty\<rparr>"

text \<open>
  A platform whose compressors change nothing and whose sort leaves a list that has no
  order as it is, and an empty response.
\<close>

definition exPlatform :: platform where
  "exPlatform = \<lparr>gzipSync = (\<lambda>b. b), deflateSync = (\<lambda>b. b), brotliCompressSync = (\<lambda>b. b),
                  varyAppend = (\<lambda>v f. Some (Str f)), compression = True,
                  sortImplDefined = (\<lambda>es. es)\<rparr>"

definition exResponse :: response where
  "exResponse = \<lparr>r_headers = Map.empty, r_sent = None\<rparr>"

text \<open>
  A store in which the file \<open>/dav/x/a.txt\<close> holds a lock of Alice that expired at
  500.
\<close>

definition exOld :: lock where
  "exOld = \<lparr>token = ''urn:uuid:aaaaaaaa-0000-4000-8000-000000000001'',
            ofResource = ''/dav/x/a.txt'', principal = ''alice'', date = 0, timeout = 500,
            scope = ''exclusive'', depth = DepthZero, provisional = False\<rparr>"

definition exAdapterOld :: adapter where
  "exAdapterOld =
     \<lparr>storedLocks = (\<lambda>r. if r = ''/dav/x/'' then [exLock]
                          else if r = ''/dav/x/a.txt'' then [exOld] else []),
      failing = (\<lambda>r. False), clock = (\<lambda>n. 1000), ticks = 0, deleteLog = []\<rparr>"



text \<open>The store of the example with a provisional lock of Bob on \<open>/dav/x/a.txt\<close>.\<close>

definition exProvisional :: lock where
  "exProvisional = \<lparr>token = ''urn:uuid:bbbbbbbb-0000-4000-8000-000000000002'',
            ofResource = ''/dav/x/a.txt'', principal = ''bob'', date = 0, timeout = 5000,
            scope = ''exclusive'', depth = DepthZero, provisional = True\<rparr>"

definition exAdapterProvisional :: adapter where
  "exAdapterProvisional =
     \<lparr>storedLocks = (\<lambda>r. if r = ''/dav/x/'' then [exLock]
                          else if r = ''/dav/x/a.txt'' then [exProvisional] else []),
      failing = (\<lambda>r. False), clock = (\<lambda>n. 1000), ticks = 0, deleteLog = []\<rparr>"

text \<open>Requests with an empty and with a non-empty \<open>Accept-Encoding\<close> header.\<close>

definition exGetEmpty :: request where
  "exGetEmpty =
     \<lparr>httpMethod = ''GET'', baseUrl = ''/dav'', headers = [''Accept-Encoding'' \<mapsto> []]\<rparr>"

definition exGetBr :: request where
  "exGetBr = \<lparr>httpMethod = ''GET'', baseUrl = ''/dav'',
              headers = [''Accept-Encoding'' \<mapsto> ''compress, gzip;q=0.5, br;q=0.8, *;q=0.1'']\<rparr>"

text \<open>A request with two q-values that differ as decimals and are one double.\<close>

definition exGetTie :: request where
  "exGetTie = \<lparr>httpMethod = ''GET'', baseUrl = ''/dav'',
               headers = [''Accept-Encoding'' \<mapsto> ''gzip;q=0.5, br;q=0.50000000000000001'']\<rparr>"

text \<open>
  A store in which Alice holds a lock of depth infinity and a lock of depth 0 on the root
  collection \<open>/dav/\<close> of the server.
\<close>

definition exRootInfinity :: lock where
  "exRootInfinity = \<lparr>token = ''urn:uuid:cccccccc-0000-4000-8000-000000000003'',
            ofResource = ''/dav/'', principal = ''alice'', date = 0, timeout = 5000,
            scope = ''exclusive'', depth = DepthInfinity, provisional = False\<rparr>"

definition exRootZero :: lock where
  "exRootZero = \<lparr>token = ''urn:uuid:dddddddd-0000-4000-8000-000000000004'',
            ofResource = ''/dav/'', principal = ''alice'', date = 0, timeout = 5000,
            scope = ''shared'', depth = DepthZero, provisional = False\<rparr>"

definition exAdapterRoot :: adapter where
  "exAdapterRoot =
     \<lparr>storedLocks = (\<lambda>r. if r = ''/dav/'' then [exRootInfinity, exRootZero] else []),
      failing = (\<lambda>r. False), clock = (\<lambda>n. 1000), ticks = 0, deleteLog = []\<rparr>"

section \<open>Paths and the parent loop\<close>

lemma splitOn_not_Nil: "splitOn c s \<noteq> []"
  by (induction s) (auto split: list.splits)

lemma tl_splitOn_Nil: "(tl (splitOn c s) = []) = (c \<notin> set s)"
  by (induction s) (auto split: list.splits simp: splitOn_not_Nil)

lemma butlast_splitOn_Nil: "(butlast (splitOn c s) = []) = (c \<notin> set s)"
proof -
  have "(butlast (splitOn c s) = []) = (tl (splitOn c s) = [])"
    by (cases "splitOn c s") (auto simp: splitOn_not_Nil)
  then show ?thesis by (simp add: tl_splitOn_Nil)
qed

lemma beforeLast_Cons:
  "beforeLast c (x # s) = (if c \<in> set s then x # beforeLast c s else [])"
proof (cases "c \<in> set s")
  case True
  then have ne: "dropWhile (\<lambda>x. x \<noteq> c) (rev s) \<noteq> []"
    by simp
  have "dropWhile (\<lambda>x. x \<noteq> c) (rev s @ [x]) = dropWhile (\<lambda>x. x \<noteq> c) (rev s) @ [x]"
    using True dropWhile_append1[of c "rev s" "\<lambda>x. x \<noteq> c" "[x]"] by simp
  then show ?thesis using True ne by (simp add: beforeLast_def)
next
  case False
  then have "\<forall>y \<in> set (rev s). y \<noteq> c" by auto
  then have "dropWhile (\<lambda>x. x \<noteq> c) (rev s @ [x]) = dropWhile (\<lambda>x. x \<noteq> c) [x]"
    by (intro dropWhile_append2) auto
  then show ?thesis using False by (simp add: beforeLast_def)
qed

lemma join_Cons_ne: "ys \<noteq> [] \<Longrightarrow> join sep (y # ys) = y @ sep @ join sep ys"
  by (cases ys) auto

lemma join_butlast_splitOn: "join [c] (butlast (splitOn c s)) = beforeLast c s"
proof (induction s)
  case Nil
  then show ?case by (simp add: beforeLast_def)
next
  case (Cons x s)
  obtain y ys where sp: "splitOn c s = y # ys"
    by (cases "splitOn c s") (auto simp: splitOn_not_Nil)
  have ys: "(ys = []) = (c \<notin> set s)" using tl_splitOn_Nil[of c s] sp by simp
  show ?case
  proof (cases "c \<in> set s")
    case True
    then have yne: "ys \<noteq> []" using ys by simp
    have bne: "butlast (splitOn c s) \<noteq> []" using True butlast_splitOn_Nil[of c s] by simp
    show ?thesis
    proof (cases "x = c")
      case True
      then show ?thesis using \<open>c \<in> set s\<close> bne Cons.IH splitOn_not_Nil[of c s]
        by (simp add: beforeLast_Cons join_Cons_ne)
    next
      case False
      have "join [c] (butlast ((x # y) # ys)) = x # join [c] (butlast (y # ys))"
        using yne by (cases "butlast ys = []") (auto simp: join_Cons_ne)
      then show ?thesis using False \<open>c \<in> set s\<close> Cons.IH sp
        by (simp add: beforeLast_Cons)
    qed
  next
    case False
    then have "ys = []" using ys by simp
    then show ?thesis using False sp splitOn_not_Nil[of c s]
      by (auto simp: beforeLast_Cons)
  qed
qed

lemma newPath_eq: "newPath p = ensureSlash (beforeLast CHR ''/'' (stripSlash p))"
  using join_butlast_splitOn[of "CHR ''/''" "stripSlash p"] by (simp add: newPath_def)

lemma beforeLast_split: "c \<notin> set t \<Longrightarrow> beforeLast c (a @ c # t) = a"
proof -
  assume "c \<notin> set t"
  then have "\<forall>x \<in> set (rev t). x \<noteq> c" by auto
  then have "dropWhile (\<lambda>x. x \<noteq> c) (rev t @ c # rev a) = dropWhile (\<lambda>x. x \<noteq> c) (c # rev a)"
    by (intro dropWhile_append2) auto
  then show ?thesis by (simp add: beforeLast_def)
qed

lemma beforeLast_none: "c \<notin> set s \<Longrightarrow> beforeLast c s = []"
proof -
  assume "c \<notin> set s"
  then have h: "dropWhile (\<lambda>x. x \<noteq> c) (rev s) = []"
    by auto
  show ?thesis unfolding beforeLast_def h by simp
qed

lemma stripSlash_append:
  "rest \<noteq> [] \<Longrightarrow> stripSlash (b @ rest) = b @ stripSlash rest"
  by (simp add: stripSlash_def butlast_append)

lemma length_stripSlash: "length (stripSlash s) \<le> length s"
  by (simp add: stripSlash_def)

lemma length_newPath:
  assumes "CHR ''/'' \<in> set p" "2 \<le> length p"
  shows "length (newPath p) < length p"
proof (cases "CHR ''/'' \<in> set (stripSlash p)")
  case False
  then have "newPath p = ''/''"
    by (simp add: newPath_eq beforeLast_none ensureSlash_def)
  then show ?thesis using assms by simp
next
  case True
  from split_list_last[OF this]
  obtain a t where dec: "stripSlash p = a @ CHR ''/'' # t" "CHR ''/'' \<notin> set t"
    by blast
  then have bl: "beforeLast CHR ''/'' (stripSlash p) = a" by (simp add: beforeLast_split)
  show ?thesis
  proof (cases "stripSlash p = p")
    case False
    then have "length (stripSlash p) < length p"
      by (auto simp: stripSlash_def split: if_splits)
    moreover have "length (ensureSlash a) \<le> length (stripSlash p)"
      using dec by (simp add: ensureSlash_def)
    ultimately show ?thesis by (simp add: newPath_eq bl)
  next
    case True
    have "\<not> (p \<noteq> [] \<and> last p = CHR ''/'')"
    proof
      assume a: "p \<noteq> [] \<and> last p = CHR ''/''"
      then have "length (stripSlash p) < length p" by (simp add: stripSlash_def)
      with True show False by simp
    qed
    moreover have "p \<noteq> []" using assms by auto
    ultimately have "last p \<noteq> CHR ''/''" by simp
    then have "t \<noteq> []" using dec True by (cases t) auto
    then have "length (ensureSlash a) < length (stripSlash p)"
      using dec by (cases t) (auto simp: ensureSlash_def)
    then show ?thesis unfolding newPath_eq bl using True by simp
  qed
qed

lemma newPath_under:
  assumes b: "b = c0 @ ''/''" "c0 = [] \<or> last c0 \<noteq> CHR ''/''" and rest: "rest \<noteq> []"
  shows "newPath (b @ rest) = b \<or> (\<exists>rest'. rest' \<noteq> [] \<and> newPath (b @ rest) = b @ rest')"
proof -
  let ?r0 = "stripSlash rest"
  have s: "stripSlash (b @ rest) = b @ ?r0" using rest by (rule stripSlash_append)
  show ?thesis
  proof (cases "CHR ''/'' \<in> set ?r0")
    case True
    from split_list_last[OF this]
    obtain a t where dec: "?r0 = a @ CHR ''/'' # t" "CHR ''/'' \<notin> set t"
      by blast
    have "beforeLast CHR ''/'' ((b @ a) @ CHR ''/'' # t) = b @ a"
      using dec(2) by (rule beforeLast_split)
    then have np: "newPath (b @ rest) = ensureSlash (b @ a)"
      by (simp add: newPath_eq s dec(1))
    show ?thesis
    proof (cases "a = []")
      case True
      then show ?thesis using np b by (simp add: ensureSlash_def)
    next
      case False
      then have "ensureSlash (b @ a) = b @ ensureSlash a" by (simp add: ensureSlash_def)
      moreover have "ensureSlash a \<noteq> []" by (simp add: ensureSlash_def)
      ultimately show ?thesis using np by auto
    qed
  next
    case False
    have bl: "beforeLast CHR ''/'' (c0 @ CHR ''/'' # ?r0) = c0"
      using False by (rule beforeLast_split)
    have "b @ ?r0 = c0 @ CHR ''/'' # ?r0" using b(1) by simp
    then have "newPath (b @ rest) = ensureSlash c0"
      unfolding newPath_eq s using bl by simp
    then show ?thesis using b by (auto simp: ensureSlash_def)
  qed
qed

lemma underBase_decomp:
  assumes "underBase req r" and "newPath r \<noteq> ensureSlash (baseUrl req)"
  obtains c0 rest where "ensureSlash (baseUrl req) = c0 @ ''/''" "c0 = [] \<or> last c0 \<noteq> CHR ''/''"
    "rest \<noteq> []" "r = ensureSlash (baseUrl req) @ rest"
proof -
  let ?b = "ensureSlash (baseUrl req)"
  from assms have l: "length ?b < length r" and t: "take (length ?b) r = ?b"
    and w: "butlast ?b = [] \<or> last (butlast ?b) \<noteq> CHR ''/''"
    by (simp_all add: underBase_def Let_def)
  have r: "r = ?b @ drop (length ?b) r" using t by (metis append_take_drop_id)
  have dne: "drop (length ?b) r \<noteq> []" using l by simp
  have "?b \<noteq> [] \<and> last ?b = CHR ''/''" by (simp add: ensureSlash_def)
  then have e: "?b = butlast ?b @ ''/''" by (metis append_butlast_last_id)
  show ?thesis by (rule that[OF e w dne r])
qed

lemma chain_exists_aux:
  assumes b: "ensureSlash (baseUrl req) = c0 @ ''/''" "c0 = [] \<or> last c0 \<noteq> CHR ''/''"
  shows "rest \<noteq> [] \<Longrightarrow> p = ensureSlash (baseUrl req) @ rest \<Longrightarrow>
         \<exists>ps. parentChain req (getParentResource req p) ps"
proof (induction "length p" arbitrary: p rest rule: less_induct)
  case less
  let ?b = "ensureSlash (baseUrl req)"
  have slash: "CHR ''/'' \<in> set p" using less.prems b by simp
  have len: "2 \<le> length p" using less.prems b by (cases rest) auto
  from newPath_under[OF b less.prems(1)] less.prems(2)
  have alt: "newPath p = ?b \<or> (\<exists>rest'. rest' \<noteq> [] \<and> newPath p = ?b @ rest')" by simp
  show ?case
  proof (cases "newPath p = ?b")
    case True
    then show ?thesis by (auto simp: getParentResource_def intro: parentChain.intros)
  next
    case False
    with alt obtain rest' where r': "rest' \<noteq> []" "newPath p = ?b @ rest'" by blast
    have "length (newPath p) < length p" using slash len by (rule length_newPath)
    from less.hyps[OF this r'] obtain ps where "parentChain req (getParentResource req (newPath p)) ps" ..
    then have "parentChain req (Some (newPath p)) (newPath p # ps)" by (rule chainStep)
    then show ?thesis using False by (auto simp: getParentResource_def)
  qed
qed

lemma chain_exists:
  assumes "underBase req r"
  shows "\<exists>ps. parentChain req (getParentResource req r) ps"
proof (cases "newPath r = ensureSlash (baseUrl req)")
  case True
  then have "getParentResource req r = None" by (simp add: getParentResource_def)
  then show ?thesis using chainEnd[of req] by auto
next
  case False
  from underBase_decomp[OF assms False] obtain c0 rest where
    "ensureSlash (baseUrl req) = c0 @ ''/''" "c0 = [] \<or> last c0 \<noteq> CHR ''/''"
    "rest \<noteq> []" "r = ensureSlash (baseUrl req) @ rest" by blast
  then show ?thesis by (rule chain_exists_aux)
qed

lemma parentLoop_chain:
  "parentChain req parent ps \<Longrightarrow>
   parentLoop req g parent first ls s = Some (visitParents g first ls ps s)"
proof (induction arbitrary: first ls s rule: parentChain.induct)
  case (chainEnd req)
  show ?case by (subst parentLoop.simps) simp
next
  case (chainStep req p ps)
  show ?case
    by (subst parentLoop.simps) (simp add: chainStep.IH split: prod.splits)
qed

section \<open>Expiry and the lock store\<close>

lemma lockDelete_fields:
  "clock (snd (lockDelete l s)) = clock s"
  "ticks (snd (lockDelete l s)) = ticks s"
  "failing (snd (lockDelete l s)) = failing s"
  "deleteLog (snd (lockDelete l s)) = deleteLog s @ [l]"
  by (simp_all add: lockDelete_def Let_def)

lemma lockDelete_store:
  "storedLocks (snd (lockDelete l s)) p =
     (if \<not> failing s (ofResource l) \<and> p = ofResource l
      then filter (\<lambda>k. token k \<noteq> token l) (storedLocks s p) else storedLocks s p)"
  by (simp add: lockDelete_def Let_def)

lemma purge_Cons:
  "removeAndDeleteTimedOutLocks (l # ls) s =
     (if expired (clock s (ticks s)) l
      then removeAndDeleteTimedOutLocks ls (snd (lockDelete l (s\<lparr>ticks := Suc (ticks s)\<rparr>)))
      else (l # fst (removeAndDeleteTimedOutLocks ls (s\<lparr>ticks := Suc (ticks s)\<rparr>)),
            snd (removeAndDeleteTimedOutLocks ls (s\<lparr>ticks := Suc (ticks s)\<rparr>))))"
  by (simp add: getTime_def expired_def split: prod.splits)

declare removeAndDeleteTimedOutLocks.simps(2) [simp del]

lemma purge_fst:
  "fst (removeAndDeleteTimedOutLocks xs s) = currentAt (clock s) (ticks s) xs"
  by (induction xs arbitrary: s) (simp_all add: purge_Cons lockDelete_fields)

lemma purge_fields:
  "clock (snd (removeAndDeleteTimedOutLocks xs s)) = clock s \<and>
   ticks (snd (removeAndDeleteTimedOutLocks xs s)) = ticks s + length xs \<and>
   failing (snd (removeAndDeleteTimedOutLocks xs s)) = failing s"
  by (induction xs arbitrary: s) (simp_all add: purge_Cons lockDelete_fields)

lemma currentAt_const:
  "(\<forall>k. n \<le> k \<longrightarrow> c k = t) \<Longrightarrow> currentAt c n xs = filter (\<lambda>l. \<not> expired t l) xs"
  by (induction xs arbitrary: n) auto

lemma currentAt_subset: "set (currentAt c n xs) \<subseteq> set xs"
  by (induction xs arbitrary: n) auto

lemma currentAt_mono:
  "mono c \<Longrightarrow> n0 \<le> n \<Longrightarrow> l \<in> set (currentAt c n xs) \<Longrightarrow> \<not> expired (c n0) l"
proof (induction xs arbitrary: n)
  case Nil
  then show ?case by simp
next
  case (Cons x xs)
  have le: "c n0 \<le> c n" using Cons.prems(1,2) by (simp add: monoD)
  show ?case
  proof (cases "l = x \<and> \<not> expired (c n) x")
    case True
    then show ?thesis using le by (auto simp: expired_def)
  next
    case False
    then have "l \<in> set (currentAt c (Suc n) xs)" using Cons.prems(3) by (auto split: if_splits)
    then show ?thesis using Cons.IH[of "Suc n"] Cons.prems(1,2) by simp
  qed
qed

lemma purge_log:
  "set (deleteLog s) \<union> (set xs - set (currentAt (clock s) (ticks s) xs))
     \<subseteq> set (deleteLog (snd (removeAndDeleteTimedOutLocks xs s)))"
proof (induction xs arbitrary: s)
  case Nil
  then show ?case by simp
next
  case (Cons l ls)
  show ?case
  proof (cases "expired (clock s (ticks s)) l")
    case True
    have "insert l (set (deleteLog s)) \<union> (set ls - set (currentAt (clock s) (Suc (ticks s)) ls))
          \<subseteq> set (deleteLog (snd (removeAndDeleteTimedOutLocks (l # ls) s)))"
      using True Cons.IH[of "snd (lockDelete l (s\<lparr>ticks := Suc (ticks s)\<rparr>))"]
      by (simp add: purge_Cons lockDelete_fields)
    then show ?thesis using True by auto
  next
    case False
    have "set (deleteLog s) \<union> (set ls - set (currentAt (clock s) (Suc (ticks s)) ls))
          \<subseteq> set (deleteLog (snd (removeAndDeleteTimedOutLocks (l # ls) s)))"
      using False Cons.IH[of "s\<lparr>ticks := Suc (ticks s)\<rparr>"]
      by (simp add: purge_Cons)
    then show ?thesis using False by auto
  qed
qed

lemma purge_store_sub:
  "\<exists>Q. storedLocks (snd (removeAndDeleteTimedOutLocks xs s)) p = filter Q (storedLocks s p)"
proof (induction xs arbitrary: s)
  case Nil
  have "storedLocks s p = filter (\<lambda>_. True) (storedLocks s p)" by simp
  then show ?case by (simp only: removeAndDeleteTimedOutLocks.simps snd_conv) blast
next
  case (Cons l ls)
  show ?case
  proof (cases "expired (clock s (ticks s)) l")
    case True
    let ?s1 = "snd (lockDelete l (s\<lparr>ticks := Suc (ticks s)\<rparr>))"
    from Cons.IH[of ?s1] obtain Q where
      q: "storedLocks (snd (removeAndDeleteTimedOutLocks ls ?s1)) p = filter Q (storedLocks ?s1 p)" ..
    obtain Q' where q': "storedLocks ?s1 p = filter Q' (storedLocks s p)"
    proof (cases "\<not> failing s (ofResource l) \<and> p = ofResource l")
      case True
      then have "storedLocks ?s1 p = filter (\<lambda>k. token k \<noteq> token l) (storedLocks s p)"
        by (simp add: lockDelete_store)
      then show ?thesis using that by blast
    next
      case False
      then have "storedLocks ?s1 p = filter (\<lambda>_. True) (storedLocks s p)"
        by (auto simp add: lockDelete_store)
      then show ?thesis using that by blast
    qed
    have "storedLocks (snd (removeAndDeleteTimedOutLocks (l # ls) s)) p =
          filter (\<lambda>x. Q x \<and> Q' x) (storedLocks s p)"
      using True q q' by (simp add: purge_Cons conj_commute)
    then show ?thesis by blast
  next
    case False
    then show ?thesis using Cons.IH[of "s\<lparr>ticks := Suc (ticks s)\<rparr>"]
      by (simp add: purge_Cons)
  qed
qed

text \<open>The tokens of the locks to purge identify them in the store.\<close>

lemma purge_live:
  assumes "constClock s t"
    and "\<forall>l \<in> set xs. \<forall>k \<in> set (storedLocks s (ofResource l)). token k = token l \<longrightarrow> k = l"
  shows "filter (\<lambda>l. \<not> expired t l) (storedLocks (snd (removeAndDeleteTimedOutLocks xs s)) p) =
         filter (\<lambda>l. \<not> expired t l) (storedLocks s p)"
  using assms
proof (induction xs arbitrary: s)
  case Nil
  then show ?case by simp
next
  case (Cons l ls)
  have now: "clock s (ticks s) = t" using Cons.prems(1) by (simp add: constClock_def)
  show ?case
  proof (cases "expired t l")
    case True
    let ?s1 = "snd (lockDelete l (s\<lparr>ticks := Suc (ticks s)\<rparr>))"
    have c1: "constClock ?s1 t"
      using Cons.prems(1) by (simp add: constClock_def lockDelete_fields)
    have sub: "\<And>q. set (storedLocks ?s1 q) \<subseteq> set (storedLocks s q)"
      by (auto simp: lockDelete_store)
    have ok1: "\<forall>l \<in> set ls. \<forall>k \<in> set (storedLocks ?s1 (ofResource l)). token k = token l \<longrightarrow> k = l"
      using Cons.prems(2) sub by (meson list.set_intros(2) subsetD)
    have del: "filter (\<lambda>l. \<not> expired t l) (storedLocks ?s1 p) =
               filter (\<lambda>l. \<not> expired t l) (storedLocks s p)"
    proof (cases "\<not> failing s (ofResource l) \<and> p = ofResource l")
      case False
      then show ?thesis by (auto simp: lockDelete_store)
    next
      case T: True
      have "\<forall>k \<in> set (storedLocks s p). \<not> expired t k \<longrightarrow> token k \<noteq> token l"
        using Cons.prems(2) T True by auto
      then have "filter (\<lambda>l. \<not> expired t l) (filter (\<lambda>k. token k \<noteq> token l) (storedLocks s p)) =
                 filter (\<lambda>l. \<not> expired t l) (storedLocks s p)"
        by (auto intro: filter_cong)
      then show ?thesis using T by (simp add: lockDelete_store)
    qed
    show ?thesis using True now Cons.IH[OF c1 ok1] del by (simp add: purge_Cons)
  next
    case False
    let ?s1 = "s\<lparr>ticks := Suc (ticks s)\<rparr>"
    have c1: "constClock ?s1 t" using Cons.prems(1) by (simp add: constClock_def)
    have ok1: "\<forall>l \<in> set ls. \<forall>k \<in> set (storedLocks ?s1 (ofResource l)). token k = token l \<longrightarrow> k = l"
      using Cons.prems(2) by simp
    show ?thesis using False now Cons.IH[OF c1 ok1] by (simp add: purge_Cons)
  qed
qed

lemma wfStore_filter:
  assumes "wfStore s" and "\<And>p. \<exists>Q. storedLocks s' p = filter Q (storedLocks s p)"
  shows "wfStore s'"
  unfolding wfStore_def
proof (intro allI conjI ballI)
  fix p
  obtain Q where q: "storedLocks s' p = filter Q (storedLocks s p)" using assms(2) by blast
  show "distinct (map token (storedLocks s' p))"
    using assms(1) by (simp add: q wfStore_def distinct_map_filter)
  fix l assume "l \<in> set (storedLocks s' p)"
  then show "ofResource l = p" using assms(1) by (simp add: q wfStore_def)
qed

lemma wfStore_tokens:
  assumes "wfStore s" "set xs \<subseteq> set (storedLocks s r)"
  shows "\<forall>l \<in> set xs. \<forall>k \<in> set (storedLocks s (ofResource l)). token k = token l \<longrightarrow> k = l"
proof (intro ballI impI)
  fix l k assume l: "l \<in> set xs" and k: "k \<in> set (storedLocks s (ofResource l))" and e: "token k = token l"
  have lr: "l \<in> set (storedLocks s r)" using l assms(2) by auto
  then have "ofResource l = r" using assms(1) by (simp add: wfStore_def)
  then have kr: "k \<in> set (storedLocks s r)" using k by simp
  have "inj_on token (set (storedLocks s r))"
    using assms(1) by (simp add: wfStore_def distinct_map)
  then show "k = l" using e kr lr by (rule inj_onD)
qed

lemma purge_steady:
  assumes st: "steady t L s" and sub: "set xs \<subseteq> set (storedLocks s r)"
  shows "fst (removeAndDeleteTimedOutLocks xs s) = filter (\<lambda>l. \<not> expired t l) xs \<and>
         steady t L (snd (removeAndDeleteTimedOutLocks xs s))"
proof -
  let ?s' = "snd (removeAndDeleteTimedOutLocks xs s)"
  from st have wf: "wfStore s" and cc: "constClock s t"
    and L: "\<And>p. filter (\<lambda>l. \<not> expired t l) (storedLocks s p) = L p"
    by (simp_all add: steady_def)
  have r: "fst (removeAndDeleteTimedOutLocks xs s) = filter (\<lambda>l. \<not> expired t l) xs"
    using cc by (simp add: purge_fst currentAt_const constClock_def)
  have wf': "wfStore ?s'" using wf purge_store_sub by (rule wfStore_filter)
  have cc': "constClock ?s' t" using cc by (simp add: constClock_def purge_fields)
  have "\<And>p. filter (\<lambda>l. \<not> expired t l) (storedLocks ?s' p) = L p"
    using purge_live[OF cc wfStore_tokens[OF wf sub]] L by simp
  then show ?thesis using r wf' cc' by (simp add: steady_def)
qed

lemma currentNonProvisional_steady:
  assumes "steady t L s"
  shows "fst (currentNonProvisional p s) = filter (\<lambda>l. \<not> provisional l) (L p) \<and>
         steady t L (snd (currentNonProvisional p s))"
proof -
  from assms have L: "filter (\<lambda>l. \<not> expired t l) (storedLocks s p) = L p"
    by (simp add: steady_def)
  from purge_steady[OF assms, of "storedLocks s p" p] L show ?thesis
    by (simp add: currentNonProvisional_def getCurrentResourceLocks_def case_prod_beta)
qed

lemma currentNonProvisionalByUser_steady:
  assumes "steady t L s"
  shows "fst (currentNonProvisionalByUser u p s) =
           filter (\<lambda>l. principal l = u) (filter (\<lambda>l. \<not> provisional l) (L p)) \<and>
         steady t L (snd (currentNonProvisionalByUser u p s))"
proof -
  from assms have L: "filter (\<lambda>l. \<not> expired t l) (storedLocks s p) = L p"
    by (simp add: steady_def)
  have c: "filter (\<lambda>l. \<not> provisional l) (filter (\<lambda>l. \<not> expired t l) (filter (\<lambda>l. principal l = u) (storedLocks s p)))
         = filter (\<lambda>l. principal l = u) (filter (\<lambda>l. \<not> provisional l) (filter (\<lambda>l. \<not> expired t l) (storedLocks s p)))"
    by (simp add: conj_commute conj_left_commute)
  have "fst (currentNonProvisionalByUser u p s) =
        filter (\<lambda>l. \<not> provisional l) (filter (\<lambda>l. \<not> expired t l) (filter (\<lambda>l. principal l = u) (storedLocks s p)))"
    using purge_steady[OF assms, of "filter (\<lambda>l. principal l = u) (storedLocks s p)" p]
    by (simp add: currentNonProvisionalByUser_def getCurrentResourceLocksByUser_def
        resourceLocksByUser_def case_prod_beta)
  moreover have "steady t L (snd (currentNonProvisionalByUser u p s))"
    using purge_steady[OF assms, of "filter (\<lambda>l. principal l = u) (storedLocks s p)" p]
    by (simp add: currentNonProvisionalByUser_def getCurrentResourceLocksByUser_def
        resourceLocksByUser_def case_prod_beta)
  ultimately show ?thesis unfolding c L by simp
qed

lemma visitParents_steady:
  assumes g: "\<And>p s. steady t L s \<Longrightarrow> fst (g p s) = G p \<and> steady t L (snd (g p s))"
  shows "steady t L s \<Longrightarrow>
         fst (visitParents g first ls ps s) = viewsOver G first ls ps \<and>
         steady t L (snd (visitParents g first ls ps s))"
proof (induction ps arbitrary: first ls s)
  case Nil
  then show ?case by simp
next
  case (Cons p ps)
  from g[OF Cons.prems, of p] have 1: "fst (g p s) = G p" and 2: "steady t L (snd (g p s))"
    by simp_all
  show ?case using Cons.IH[OF 2] 1 by (simp add: case_prod_beta)
qed

lemma getLocksGeneral_steady:
  assumes g: "\<And>p s. steady t L s \<Longrightarrow> fst (g p s) = G p \<and> steady t L (snd (g p s))"
    and ch: "parentChain req (getParentResource req r) ps"
    and st: "steady t L s"
  shows "\<exists>s'. getLocksGeneral req r g s = Some (viewsOf G r ps, s') \<and> steady t L s'"
proof -
  from g[OF st, of r] have 1: "fst (g r s) = G r" and 2: "steady t L (snd (g r s))"
    by simp_all
  let ?ls = "\<lparr>all = G r, resource = G r, depthZero = [], depthInfinity = []\<rparr>"
  from visitParents_steady[of t L g G, OF g 2, of True ?ls ps]
  have v: "fst (visitParents g True ?ls ps (snd (g r s))) = viewsOf G r ps"
    and s': "steady t L (snd (visitParents g True ?ls ps (snd (g r s))))"
    by (simp_all add: viewsOf_def)
  have "getLocksGeneral req r g s = Some (visitParents g True ?ls ps (snd (g r s)))"
    using 1 by (simp add: getLocksGeneral_def case_prod_beta parentLoop_chain[OF ch])
  then show ?thesis using v s' by (metis prod.collapse)
qed

section \<open>Expired locks\<close>

lemma foldl_addParentLock_sets:
  "set (all (foldl (addParentLock f) ls xs)) \<subseteq> set (all ls) \<union> set xs \<and>
   set (resource (foldl (addParentLock f) ls xs)) = set (resource ls) \<and>
   set (depthZero (foldl (addParentLock f) ls xs)) \<subseteq> set (depthZero ls) \<union> set xs \<and>
   set (depthInfinity (foldl (addParentLock f) ls xs)) \<subseteq> set (depthInfinity ls) \<union> set xs"
proof (induction xs arbitrary: ls)
  case Nil
  then show ?case by simp
next
  case (Cons x xs)
  show ?case using Cons.IH[of "addParentLock f ls x"]
    by (auto simp: addParentLock_def split: if_splits)
qed

lemma locksIn_foldl: "locksIn (foldl (addParentLock f) ls xs) \<subseteq> locksIn ls \<union> set xs"
  using foldl_addParentLock_sets[of f ls xs] unfolding locksIn_def by blast

lemma visitParents_pred:
  assumes g: "\<And>p s. I s \<Longrightarrow> (\<forall>l \<in> set (fst (g p s)). Q l) \<and> I (snd (g p s))"
  shows "I s \<Longrightarrow> \<forall>l \<in> locksIn ls. Q l \<Longrightarrow>
         (\<forall>l \<in> locksIn (fst (visitParents g first ls ps s)). Q l) \<and>
         I (snd (visitParents g first ls ps s))"
proof (induction ps arbitrary: first ls s)
  case Nil
  then show ?case by simp
next
  case (Cons p ps)
  from g[OF Cons.prems(1), of p] have 1: "\<forall>l \<in> set (fst (g p s)). Q l" and 2: "I (snd (g p s))"
    by simp_all
  have 3: "\<forall>l \<in> locksIn (foldl (addParentLock first) ls (fst (g p s))). Q l"
    using locksIn_foldl[of first ls "fst (g p s)"] 1 Cons.prems(2) by blast
  show ?case using Cons.IH[OF 2 3] by (simp add: case_prod_beta)
qed

lemma getLocksGeneral_pred:
  assumes g: "\<And>p s. I s \<Longrightarrow> (\<forall>l \<in> set (fst (g p s)). Q l) \<and> I (snd (g p s))"
    and u: "underBase req r" and i: "I s"
  shows "\<exists>ls s'. getLocksGeneral req r g s = Some (ls, s') \<and> (\<forall>l \<in> locksIn ls. Q l) \<and> I s'"
proof -
  from chain_exists[OF u] obtain ps where ch: "parentChain req (getParentResource req r) ps" ..
  let ?ls = "\<lparr>all = fst (g r s), resource = fst (g r s), depthZero = [], depthInfinity = []\<rparr>"
  from g[OF i, of r] have 1: "\<forall>l \<in> locksIn ?ls. Q l" and 2: "I (snd (g r s))"
    by (simp_all add: locksIn_def)
  have e: "getLocksGeneral req r g s = Some (visitParents g True ?ls ps (snd (g r s)))"
    by (simp add: getLocksGeneral_def case_prod_beta parentLoop_chain[OF ch])
  from visitParents_pred[of I g Q, OF g 2 1, of True ps] e show ?thesis
    by (metis prod.collapse)
qed

lemma purge_unexpired:
  assumes "mono c" "atOrAfter c n s"
  shows "(\<forall>l \<in> set (fst (removeAndDeleteTimedOutLocks xs s)). \<not> expired (c n) l) \<and>
         atOrAfter c n (snd (removeAndDeleteTimedOutLocks xs s))"
  using assms currentAt_mono[of c n "ticks s" _ xs]
  by (auto simp: purge_fst purge_fields atOrAfter_def)

lemma currentNonProvisional_unexpired:
  assumes "mono c" "atOrAfter c n s"
  shows "(\<forall>l \<in> set (fst (currentNonProvisional p s)). \<not> expired (c n) l) \<and>
         atOrAfter c n (snd (currentNonProvisional p s))"
  using purge_unexpired[OF assms, of "storedLocks s p"]
  by (simp add: currentNonProvisional_def getCurrentResourceLocks_def case_prod_beta)

lemma currentNonProvisionalByUser_unexpired:
  assumes "mono c" "atOrAfter c n s"
  shows "(\<forall>l \<in> set (fst (currentNonProvisionalByUser u p s)). \<not> expired (c n) l) \<and>
         atOrAfter c n (snd (currentNonProvisionalByUser u p s))"
  using purge_unexpired[OF assms, of "resourceLocksByUser s p u"]
  by (simp add: currentNonProvisionalByUser_def getCurrentResourceLocksByUser_def case_prod_beta)

lemma purge_expired_logged:
  assumes "mono (clock s)" "l \<in> set xs" "expired (clock s (ticks s)) l"
  shows "l \<notin> set (fst (removeAndDeleteTimedOutLocks xs s)) \<and>
         l \<in> set (deleteLog (snd (removeAndDeleteTimedOutLocks xs s)))"
proof -
  have n: "l \<notin> set (currentAt (clock s) (ticks s) xs)"
    using currentAt_mono[OF assms(1), of "ticks s" "ticks s" l xs] assms(3) by auto
  then show ?thesis using purge_log[of s xs] assms(2) by (auto simp: purge_fst)
qed

text \<open>
  C4. With a clock that does not run backwards, for a resource below the mount path:
  every lock of the resource that is expired when the call starts is missing from the
  result of \<open>getCurrentResourceLocks\<close> (and of \<open>getCurrentResourceLocksByUser\<close>)
  and \<open>lock.delete()\<close> has been called on it; which deletions fail does not change
  the result; and the views that \<open>getLocks\<close> and then \<open>getLocksByUser\<close> return,
  from which \<open>getLockPermission\<close> decides, hold no lock that was expired when the
  call started.
\<close>

theorem expired_locks_purged:
  assumes "mono (clock s)" and "underBase req r"
  shows "(\<forall>l \<in> set (storedLocks s r). expired (clock s (ticks s)) l \<longrightarrow>
            l \<notin> set (fst (getCurrentResourceLocks r s)) \<and>
            l \<in> set (deleteLog (snd (getCurrentResourceLocks r s)))) \<and>
         (\<forall>l \<in> set (resourceLocksByUser s r u). expired (clock s (ticks s)) l \<longrightarrow>
            l \<notin> set (fst (getCurrentResourceLocksByUser r u s)) \<and>
            l \<in> set (deleteLog (snd (getCurrentResourceLocksByUser r u s)))) \<and>
         (\<forall>f. fst (getCurrentResourceLocks r (s\<lparr>failing := f\<rparr>)) = fst (getCurrentResourceLocks r s)) \<and>
         (\<exists>ls s1. getLocks req r s = Some (ls, s1) \<and>
            (\<forall>l \<in> set (all ls) \<union> set (resource ls) \<union> set (depthZero ls) \<union> set (depthInfinity ls).
               \<not> expired (clock s (ticks s)) l) \<and>
            (\<exists>uls s2. getLocksByUser req r u s1 = Some (uls, s2) \<and>
               (\<forall>l \<in> set (all uls) \<union> set (resource uls) \<union> set (depthZero uls) \<union> set (depthInfinity uls).
                  \<not> expired (clock s (ticks s)) l)))"
proof -
  let ?c = "clock s" and ?n = "ticks s"
  have a: "\<forall>l \<in> set (storedLocks s r). expired (?c ?n) l \<longrightarrow>
            l \<notin> set (fst (getCurrentResourceLocks r s)) \<and>
            l \<in> set (deleteLog (snd (getCurrentResourceLocks r s)))"
    using purge_expired_logged[OF assms(1)] by (simp add: getCurrentResourceLocks_def)
  have b: "\<forall>l \<in> set (resourceLocksByUser s r u). expired (?c ?n) l \<longrightarrow>
            l \<notin> set (fst (getCurrentResourceLocksByUser r u s)) \<and>
            l \<in> set (deleteLog (snd (getCurrentResourceLocksByUser r u s)))"
    using purge_expired_logged[OF assms(1)] by (simp add: getCurrentResourceLocksByUser_def)
  have c: "\<forall>f. fst (getCurrentResourceLocks r (s\<lparr>failing := f\<rparr>)) = fst (getCurrentResourceLocks r s)"
    by (simp add: getCurrentResourceLocks_def purge_fst)
  have i0: "atOrAfter ?c ?n s" by (simp add: atOrAfter_def)
  from getLocksGeneral_pred[of "atOrAfter ?c ?n" currentNonProvisional "\<lambda>l. \<not> expired (?c ?n) l",
      OF currentNonProvisional_unexpired[OF assms(1)] assms(2) i0]
  obtain ls s1 where 1: "getLocks req r s = Some (ls, s1)"
    and 2: "\<forall>l \<in> locksIn ls. \<not> expired (?c ?n) l" and 3: "atOrAfter ?c ?n s1"
    unfolding getLocks_def by blast
  from getLocksGeneral_pred[of "atOrAfter ?c ?n" "currentNonProvisionalByUser u" "\<lambda>l. \<not> expired (?c ?n) l",
      OF currentNonProvisionalByUser_unexpired[OF assms(1)] assms(2) 3]
  obtain uls s2 where 4: "getLocksByUser req r u s1 = Some (uls, s2)"
    and 5: "\<forall>l \<in> locksIn uls. \<not> expired (?c ?n) l"
    unfolding getLocksByUser_def by blast
  show ?thesis using a b c 1 2 4 5 unfolding locksIn_def by blast
qed

theorem expired_locks_purged_witness:
  "mono (clock exAdapterOld) \<and> underBase exPut ''/dav/x/a.txt'' \<and>
   exOld \<in> set (storedLocks exAdapterOld ''/dav/x/a.txt'') \<and>
   expired (clock exAdapterOld (ticks exAdapterOld)) exOld \<and>
   exOld \<notin> set (fst (getCurrentResourceLocks ''/dav/x/a.txt'' exAdapterOld)) \<and>
   exOld \<in> set (deleteLog (snd (getCurrentResourceLocks ''/dav/x/a.txt'' exAdapterOld)))"
proof -
  have m: "mono (clock exAdapterOld)" by (simp add: exAdapterOld_def mono_def)
  have u: "underBase exPut ''/dav/x/a.txt''"
    by (simp add: underBase_def exPut_def ensureSlash_def)
  have i: "exOld \<in> set (storedLocks exAdapterOld ''/dav/x/a.txt'')"
    by (simp add: exAdapterOld_def)
  have e: "expired (clock exAdapterOld (ticks exAdapterOld)) exOld"
    by (simp add: expired_def exAdapterOld_def exOld_def)
  from expired_locks_purged[OF m u, of "''alice''"]
  have "\<forall>l \<in> set (storedLocks exAdapterOld ''/dav/x/a.txt'').
          expired (clock exAdapterOld (ticks exAdapterOld)) l \<longrightarrow>
            l \<notin> set (fst (getCurrentResourceLocks ''/dav/x/a.txt'' exAdapterOld)) \<and>
            l \<in> set (deleteLog (snd (getCurrentResourceLocks ''/dav/x/a.txt'' exAdapterOld)))"
    by blast
  then show ?thesis using m u i e by blast
qed

section \<open>The permission decision\<close>

lemma getLocksGeneral_total:
  assumes "underBase req r"
  shows "\<exists>ls s'. getLocksGeneral req r g s = Some (ls, s')"
proof -
  from chain_exists[OF assms] obtain ps where "parentChain req (getParentResource req r) ps" ..
  then show ?thesis
    by (simp add: getLocksGeneral_def case_prod_beta parentLoop_chain)
qed

lemma scanLocks_eq:
  "scanLocks ret xs code =
     (if \<exists>l \<in> set xs. scope l = ''exclusive'' then Inl ret
      else Inr (if \<exists>l \<in> set xs. scope l = ''shared'' then 3 else code))"
  by (induction xs arbitrary: code) auto

lemma find_None_conv: "(find P xs = None) = (\<forall>x \<in> set xs. \<not> P x)"
  by (induction xs) auto

text \<open>
  C1. A request whose method is not \<open>LOCK\<close>, for a resource below the mount path:
  \<open>getLocks\<close> returns the lock views. If the view \<open>all\<close> is empty,
  \<open>getLockPermission\<close> returns 2. If it is not empty, \<open>getLocksByUser\<close> returns
  the views of the user, and if none of their locks has a token among the submitted
  tokens, \<open>getLockPermission\<close> returns 0 when there is a lock in \<open>resource\<close> or
  \<open>depthInfinity\<close>, 1 when there is none but there is one in \<open>depthZero\<close>, and 0
  otherwise.
\<close>

theorem getLockPermission_not_LOCK:
  assumes "underBase req r" and "httpMethod req \<noteq> ''LOCK''"
  shows "\<exists>ls s1. getLocks req r s = Some (ls, s1) \<and>
           (all ls = [] \<longrightarrow> getLockPermission req r u s = Some (2, s1)) \<and>
           (all ls \<noteq> [] \<longrightarrow>
              (\<exists>uls s2. getLocksByUser req r u s1 = Some (uls, s2) \<and>
                 ((\<forall>ul \<in> set (all uls). token ul \<notin> set (getRequestLockTockens req)) \<longrightarrow>
                    getLockPermission req r u s =
                      Some (if resource ls \<noteq> [] \<or> depthInfinity ls \<noteq> [] then 0
                            else if depthZero ls \<noteq> [] then 1
                            else 0, s2))))"
proof -
  from getLocksGeneral_total[OF assms(1)] obtain ls s1
    where 1: "getLocks req r s = Some (ls, s1)" unfolding getLocks_def by blast
  from getLocksGeneral_total[OF assms(1)] obtain uls s2
    where 2: "getLocksByUser req r u s1 = Some (uls, s2)" unfolding getLocksByUser_def by blast
  have "all ls = [] \<longrightarrow> getLockPermission req r u s = Some (2, s1)"
    using 1 by (simp add: getLockPermission_def)
  moreover have "(\<forall>ul \<in> set (all uls). token ul \<notin> set (getRequestLockTockens req)) \<longrightarrow>
      all ls \<noteq> [] \<longrightarrow>
      getLockPermission req r u s =
        Some (if resource ls \<noteq> [] \<or> depthInfinity ls \<noteq> [] then 0
              else if depthZero ls \<noteq> [] then 1 else 0, s2)"
    using 1 2 assms(2)
    by (auto simp add: getLockPermission_def otherMethodCode_def find_None_conv)
  ultimately show ?thesis using 1 2 by blast
qed

lemma exPut_views: "map_option fst (getLocks exPut ''/dav/x/a.txt'' exAdapter) =
   Some \<lparr>all = [exLock], resource = [], depthZero = [exLock], depthInfinity = []\<rparr>"
  by code_simp

lemma exPut_userViews: "map_option (all \<circ> fst) (getLocksByUser exPut ''/dav/x/a.txt'' ''bob''
     (snd (the (getLocks exPut ''/dav/x/a.txt'' exAdapter)))) = Some []"
  by code_simp

theorem getLockPermission_not_LOCK_witness:
  "underBase exPut ''/dav/x/a.txt'' \<and> httpMethod exPut \<noteq> ''LOCK'' \<and>
   map_option fst (getLockPermission exPut ''/dav/x/a.txt'' ''bob'' exAdapter) = Some 1"
proof -
  have h1: "underBase exPut ''/dav/x/a.txt''"
    by (simp add: underBase_def exPut_def ensureSlash_def)
  have h2: "httpMethod exPut \<noteq> ''LOCK''" by (simp add: exPut_def)
  from getLockPermission_not_LOCK[OF h1 h2, of exAdapter "''bob''"] obtain ls s1 where
    a: "getLocks exPut ''/dav/x/a.txt'' exAdapter = Some (ls, s1)" and
    b: "all ls \<noteq> [] \<longrightarrow>
          (\<exists>uls s2. getLocksByUser exPut ''/dav/x/a.txt'' ''bob'' s1 = Some (uls, s2) \<and>
             ((\<forall>ul \<in> set (all uls). token ul \<notin> set (getRequestLockTockens exPut)) \<longrightarrow>
                getLockPermission exPut ''/dav/x/a.txt'' ''bob'' exAdapter =
                  Some (if resource ls \<noteq> [] \<or> depthInfinity ls \<noteq> [] then 0
                        else if depthZero ls \<noteq> [] then 1 else 0, s2)))"
    by blast
  have ls: "ls = \<lparr>all = [exLock], resource = [], depthZero = [exLock], depthInfinity = []\<rparr>"
    using a exPut_views by simp
  from b ls obtain uls s2 where
    c: "getLocksByUser exPut ''/dav/x/a.txt'' ''bob'' s1 = Some (uls, s2)" and
    d: "(\<forall>ul \<in> set (all uls). token ul \<notin> set (getRequestLockTockens exPut)) \<longrightarrow>
          getLockPermission exPut ''/dav/x/a.txt'' ''bob'' exAdapter = Some (1, s2)"
    by auto
  have "all uls = []" using a c exPut_userViews by simp
  then have "getLockPermission exPut ''/dav/x/a.txt'' ''bob'' exAdapter = Some (1, s2)"
    using d by simp
  then show ?thesis using h1 h2 by simp
qed

text \<open>
  C2. A request whose method is \<open>LOCK\<close>, for a resource below the mount path, with
  locks in the view \<open>all\<close> and no lock of the user with a submitted token:
  \<open>getLockPermission\<close> returns 0 if a lock in \<open>resource\<close> or \<open>depthInfinity\<close> is
  exclusive; 1 if none of those is and a lock in \<open>depthZero\<close> is exclusive; 3 if no lock
  in the three views is exclusive and one is shared, as when all of them are shared; and
  0 if none is exclusive or shared.
\<close>

theorem getLockPermission_LOCK:
  assumes "underBase req r" and "httpMethod req = ''LOCK''"
  shows "\<exists>ls s1. getLocks req r s = Some (ls, s1) \<and>
           (all ls \<noteq> [] \<longrightarrow>
              (\<exists>uls s2. getLocksByUser req r u s1 = Some (uls, s2) \<and>
                 ((\<forall>ul \<in> set (all uls). token ul \<notin> set (getRequestLockTockens req)) \<longrightarrow>
                    (\<exists>code. getLockPermission req r u s = Some (code, s2) \<and>
                       ((\<exists>l \<in> set (resource ls) \<union> set (depthInfinity ls). scope l = ''exclusive'')
                          \<longrightarrow> code = 0) \<and>
                       (\<not> (\<exists>l \<in> set (resource ls) \<union> set (depthInfinity ls). scope l = ''exclusive'') \<and>
                        (\<exists>l \<in> set (depthZero ls). scope l = ''exclusive'')
                          \<longrightarrow> code = 1) \<and>
                       (\<not> (\<exists>l \<in> set (resource ls) \<union> set (depthInfinity ls) \<union> set (depthZero ls).
                              scope l = ''exclusive'') \<and>
                        (\<exists>l \<in> set (resource ls) \<union> set (depthInfinity ls) \<union> set (depthZero ls).
                              scope l = ''shared'')
                          \<longrightarrow> code = 3) \<and>
                       (\<not> (\<exists>l \<in> set (resource ls) \<union> set (depthInfinity ls) \<union> set (depthZero ls).
                              scope l = ''exclusive'' \<or> scope l = ''shared'')
                          \<longrightarrow> code = 0)))))"
proof -
  from getLocksGeneral_total[OF assms(1)] obtain ls s1
    where 1: "getLocks req r s = Some (ls, s1)" unfolding getLocks_def by blast
  from getLocksGeneral_total[OF assms(1)] obtain uls s2
    where 2: "getLocksByUser req r u s1 = Some (uls, s2)" unfolding getLocksByUser_def by blast
  have p: "(\<forall>ul \<in> set (all uls). token ul \<notin> set (getRequestLockTockens req)) \<longrightarrow>
      all ls \<noteq> [] \<longrightarrow> getLockPermission req r u s = Some (lockMethodCode ls, s2)"
    using 1 2 assms(2) by (auto simp add: getLockPermission_def find_None_conv)
  have c0: "(\<exists>l \<in> set (resource ls) \<union> set (depthInfinity ls). scope l = ''exclusive'')
              \<longrightarrow> lockMethodCode ls = 0"
    by (auto simp: lockMethodCode_def scanLocks_eq)
  have c1: "\<not> (\<exists>l \<in> set (resource ls) \<union> set (depthInfinity ls). scope l = ''exclusive'') \<and>
            (\<exists>l \<in> set (depthZero ls). scope l = ''exclusive'') \<longrightarrow> lockMethodCode ls = 1"
    by (auto simp: lockMethodCode_def scanLocks_eq)
  have c3: "\<not> (\<exists>l \<in> set (resource ls) \<union> set (depthInfinity ls) \<union> set (depthZero ls).
                  scope l = ''exclusive'') \<and>
            (\<exists>l \<in> set (resource ls) \<union> set (depthInfinity ls) \<union> set (depthZero ls).
                  scope l = ''shared'') \<longrightarrow> lockMethodCode ls = 3"
    by (auto simp: lockMethodCode_def scanLocks_eq)
  have c4: "\<not> (\<exists>l \<in> set (resource ls) \<union> set (depthInfinity ls) \<union> set (depthZero ls).
                  scope l = ''exclusive'' \<or> scope l = ''shared'') \<longrightarrow> lockMethodCode ls = 0"
    by (auto simp: lockMethodCode_def scanLocks_eq)
  show ?thesis using 1 2 p c0 c1 c3 c4 by blast
qed

lemma exLockReq_views:
  "map_option fst (getLocks exLockReq ''/dav/x/a.txt'' exAdapter) =
     Some \<lparr>all = [exLock], resource = [], depthZero = [exLock], depthInfinity = []\<rparr>"
  by code_simp

lemma exLockReq_userViews:
  "map_option (all \<circ> fst) (getLocksByUser exLockReq ''/dav/x/a.txt'' ''bob''
     (snd (the (getLocks exLockReq ''/dav/x/a.txt'' exAdapter)))) = Some []"
  by code_simp

theorem getLockPermission_LOCK_witness:
  "underBase exLockReq ''/dav/x/a.txt'' \<and> httpMethod exLockReq = ''LOCK'' \<and>
   map_option fst (getLockPermission exLockReq ''/dav/x/a.txt'' ''bob'' exAdapter) = Some 3"
proof -
  have h1: "underBase exLockReq ''/dav/x/a.txt''"
    by (simp add: underBase_def exLockReq_def ensureSlash_def)
  have h2: "httpMethod exLockReq = ''LOCK''" by (simp add: exLockReq_def)
  from getLockPermission_LOCK[OF h1 h2, of exAdapter "''bob''"] obtain ls s1 where
    a: "getLocks exLockReq ''/dav/x/a.txt'' exAdapter = Some (ls, s1)" and
    b: "all ls \<noteq> [] \<longrightarrow>
          (\<exists>uls s2. getLocksByUser exLockReq ''/dav/x/a.txt'' ''bob'' s1 = Some (uls, s2) \<and>
             ((\<forall>ul \<in> set (all uls). token ul \<notin> set (getRequestLockTockens exLockReq)) \<longrightarrow>
                (\<exists>code. getLockPermission exLockReq ''/dav/x/a.txt'' ''bob'' exAdapter = Some (code, s2) \<and>
                   (\<not> (\<exists>l \<in> set (resource ls) \<union> set (depthInfinity ls) \<union> set (depthZero ls).
                          scope l = ''exclusive'') \<and>
                    (\<exists>l \<in> set (resource ls) \<union> set (depthInfinity ls) \<union> set (depthZero ls).
                          scope l = ''shared'')
                      \<longrightarrow> code = 3))))"
    by blast
  have ls: "ls = \<lparr>all = [exLock], resource = [], depthZero = [exLock], depthInfinity = []\<rparr>"
    using a exLockReq_views by simp
  from b ls obtain uls s2 where
    c: "getLocksByUser exLockReq ''/dav/x/a.txt'' ''bob'' s1 = Some (uls, s2)" and
    d: "(\<forall>ul \<in> set (all uls). token ul \<notin> set (getRequestLockTockens exLockReq)) \<longrightarrow>
          (\<exists>code. getLockPermission exLockReq ''/dav/x/a.txt'' ''bob'' exAdapter = Some (code, s2) \<and>
             (scope exLock \<noteq> ''exclusive'' \<and> scope exLock = ''shared'' \<longrightarrow> code = 3))"
    by auto
  have "all uls = []" using a c exLockReq_userViews by simp
  moreover have "scope exLock = ''shared''" by (simp add: exLock_def)
  ultimately have "getLockPermission exLockReq ''/dav/x/a.txt'' ''bob'' exAdapter = Some (3, s2)"
    using d by auto
  then show ?thesis using h1 h2 by simp
qed

section \<open>The decision as a function of the store\<close>

text \<open>
  While the clock stands still and the store is well formed, the views and the permission
  code are functions of the unexpired locks the store held when the call started.
\<close>

lemma foldl_addParentLock_filter:
  "foldl (addParentLock f) (filterLocks P ls) (filter P xs) =
   filterLocks P (foldl (addParentLock f) ls xs)"
proof (induction xs arbitrary: ls)
  case Nil
  then show ?case by simp
next
  case (Cons x xs)
  have "addParentLock f (filterLocks P ls) x = filterLocks P (addParentLock f ls x)" if "P x"
    using that by (simp add: addParentLock_def filterLocks_def)
  moreover have "filterLocks P (addParentLock f ls x) = filterLocks P ls" if "\<not> P x"
    using that by (simp add: addParentLock_def filterLocks_def)
  ultimately show ?case using Cons.IH[of "addParentLock f ls x"] by (cases "P x") simp_all
qed

lemma viewsOver_filter:
  "viewsOver (\<lambda>p. filter P (G p)) f (filterLocks P ls) ps = filterLocks P (viewsOver G f ls ps)"
  by (induction ps arbitrary: f ls) (simp_all add: foldl_addParentLock_filter)

lemma viewsOf_filter: "viewsOf (\<lambda>p. filter P (G p)) r ps = filterLocks P (viewsOf G r ps)"
  using viewsOver_filter[of P G True "\<lparr>all = G r, resource = G r, depthZero = [], depthInfinity = []\<rparr>" ps]
  by (simp add: viewsOf_def filterLocks_def)

lemma getLockPermission_steady:
  assumes st: "steady t L s" and ch: "parentChain req (getParentResource req r) ps"
  shows "\<exists>s1 sf. getLocks req r s = Some (viewsOf (\<lambda>p. filter (\<lambda>l. \<not> provisional l) (L p)) r ps, s1) \<and>
           getLockPermission req r u s =
             Some (permissionOf req u (viewsOf (\<lambda>p. filter (\<lambda>l. \<not> provisional l) (L p)) r ps), sf)"
proof -
  let ?G = "\<lambda>p. filter (\<lambda>l. \<not> provisional l) (L p)"
  let ?V = "viewsOf ?G r ps"
  from getLocksGeneral_steady[of t L currentNonProvisional ?G, OF currentNonProvisional_steady ch st]
  obtain s1 where 1: "getLocks req r s = Some (?V, s1)" and st1: "steady t L s1"
    unfolding getLocks_def by blast
  from getLocksGeneral_steady[of t L "currentNonProvisionalByUser u" "\<lambda>p. filter (\<lambda>l. principal l = u) (?G p)",
      OF currentNonProvisionalByUser_steady ch st1]
  obtain s2 where 2: "getLocksByUser req r u s1 =
      Some (viewsOf (\<lambda>p. filter (\<lambda>l. principal l = u) (?G p)) r ps, s2)"
    unfolding getLocksByUser_def by blast
  have 3: "all (viewsOf (\<lambda>p. filter (\<lambda>l. principal l = u) (?G p)) r ps) =
           filter (\<lambda>l. principal l = u) (all ?V)"
    by (simp add: viewsOf_filter filterLocks_def)
  have 4: "(find (\<lambda>userLock. token userLock \<in> set (getRequestLockTockens req))
              (filter (\<lambda>l. principal l = u) (all ?V)) \<noteq> None) =
           (\<exists>l \<in> set (all ?V). principal l = u \<and> token l \<in> set (getRequestLockTockens req))"
    by (auto simp: find_None_conv)
  let ?UV = "viewsOf (\<lambda>p. filter (\<lambda>l. principal l = u) (?G p)) r ps"
  have 5: "(find (\<lambda>userLock. token userLock \<in> set (getRequestLockTockens req)) (all ?UV) \<noteq> None) =
           (\<exists>l \<in> set (all ?V). principal l = u \<and> token l \<in> set (getRequestLockTockens req))"
    unfolding 3 by (rule 4)
  show ?thesis
  proof (cases "all ?V = []")
    case True
    then show ?thesis using 1 by (simp add: getLockPermission_def permissionOf_def)
  next
    case False
    have "getLockPermission req r u s = Some (permissionOf req u ?V, s2)"
    proof (cases "\<exists>l \<in> set (all ?V). principal l = u \<and> token l \<in> set (getRequestLockTockens req)")
      case True
      have "find (\<lambda>userLock. token userLock \<in> set (getRequestLockTockens req)) (all ?UV) \<noteq> None"
        using 5 True by blast
      then show ?thesis using False True
        by (simp add: getLockPermission_def permissionOf_def 1 2 Let_def del: not_None_eq)
    next
      case F: False
      have "find (\<lambda>userLock. token userLock \<in> set (getRequestLockTockens req)) (all ?UV) = None"
        using 5 F by blast
      then show ?thesis using False F
        by (auto simp add: getLockPermission_def permissionOf_def 1 2 Let_def)
    qed
    then show ?thesis using 1 by blast
  qed
qed




lemma steady_init:
  "wfStore s \<Longrightarrow> constClock s t \<Longrightarrow>
   steady t (\<lambda>p. filter (\<lambda>l. \<not> expired t l) (storedLocks s p)) s"
  by (simp add: steady_def)

lemma exAdapter_wf: "wfStore exAdapter"
  by (simp add: wfStore_def exAdapter_def exLock_def)

lemma exAdapterProvisional_wf: "wfStore exAdapterProvisional"
  by (simp add: wfStore_def exAdapterProvisional_def exProvisional_def exLock_def)

lemma exAdapter_const: "constClock exAdapter 1000"
  by (simp add: constClock_def exAdapter_def)

lemma exAdapterProvisional_const: "constClock exAdapterProvisional 1000"
  by (simp add: constClock_def exAdapterProvisional_def)









text \<open>
  C9. For a resource below the mount path, two well-formed stores that hold the same locks
  apart from provisional ones, and a clock that stands still at the same time:
  \<open>getLockPermission\<close> returns the same code on both. No view returned by
  \<open>getLocks\<close> or \<open>getLocksByUser\<close> holds a provisional lock.
\<close>

theorem provisional_locks_ignored:
  assumes "underBase req r" and "wfStore s" and "wfStore s'"
    and "constClock s t" and "constClock s' t"
    and "\<forall>p. filter (\<lambda>l. \<not> provisional l) (storedLocks s p) =
             filter (\<lambda>l. \<not> provisional l) (storedLocks s' p)"
  shows "(\<exists>code sf sf'. getLockPermission req r u s = Some (code, sf) \<and>
                         getLockPermission req r u s' = Some (code, sf')) \<and>
         (\<exists>ls s1. getLocks req r s = Some (ls, s1) \<and>
            (\<forall>l \<in> set (all ls) \<union> set (resource ls) \<union> set (depthZero ls) \<union> set (depthInfinity ls).
               \<not> provisional l) \<and>
            (\<exists>uls s2. getLocksByUser req r u s1 = Some (uls, s2) \<and>
               (\<forall>l \<in> set (all uls) \<union> set (resource uls) \<union> set (depthZero uls) \<union> set (depthInfinity uls).
                  \<not> provisional l)))"
proof -
  from chain_exists[OF assms(1)] obtain ps where ch: "parentChain req (getParentResource req r) ps" ..
  let ?L = "\<lambda>p. filter (\<lambda>l. \<not> expired t l) (storedLocks s p)"
  let ?L' = "\<lambda>p. filter (\<lambda>l. \<not> expired t l) (storedLocks s' p)"
  have eq: "(\<lambda>p. filter (\<lambda>l. \<not> provisional l) (?L p)) = (\<lambda>p. filter (\<lambda>l. \<not> provisional l) (?L' p))"
  proof
    fix p
    have "filter (\<lambda>l. \<not> provisional l) (?L p) =
          filter (\<lambda>l. \<not> expired t l) (filter (\<lambda>l. \<not> provisional l) (storedLocks s p))"
      by (simp add: conj_commute)
    also have "\<dots> = filter (\<lambda>l. \<not> expired t l) (filter (\<lambda>l. \<not> provisional l) (storedLocks s' p))"
      using assms(6) by simp
    also have "\<dots> = filter (\<lambda>l. \<not> provisional l) (?L' p)" by (simp add: conj_commute)
    finally show "filter (\<lambda>l. \<not> provisional l) (?L p) = filter (\<lambda>l. \<not> provisional l) (?L' p)" .
  qed
  from getLockPermission_steady[OF steady_init[OF assms(2,4)] ch, of u]
  obtain sf where a: "getLockPermission req r u s =
      Some (permissionOf req u (viewsOf (\<lambda>p. filter (\<lambda>l. \<not> provisional l) (?L p)) r ps), sf)"
    by blast
  from getLockPermission_steady[OF steady_init[OF assms(3,5)] ch, of u]
  obtain sf' where b: "getLockPermission req r u s' =
      Some (permissionOf req u (viewsOf (\<lambda>p. filter (\<lambda>l. \<not> provisional l) (?L' p)) r ps), sf')"
    by blast
  have first: "\<exists>code sf sf'. getLockPermission req r u s = Some (code, sf) \<and>
                         getLockPermission req r u s' = Some (code, sf')"
    using a b eq by simp
  have g1: "\<And>p s. True \<Longrightarrow> (\<forall>l \<in> set (fst (currentNonProvisional p s)). \<not> provisional l) \<and> True"
    by (simp add: currentNonProvisional_def case_prod_beta)
  have g2: "\<And>p s. True \<Longrightarrow> (\<forall>l \<in> set (fst (currentNonProvisionalByUser u p s)). \<not> provisional l) \<and> True"
    by (simp add: currentNonProvisionalByUser_def case_prod_beta)
  from getLocksGeneral_pred[of "\<lambda>s. True" currentNonProvisional "\<lambda>l. \<not> provisional l", OF g1 assms(1)]
  obtain ls s1 where 1: "getLocks req r s = Some (ls, s1)" and 2: "\<forall>l \<in> locksIn ls. \<not> provisional l"
    unfolding getLocks_def by blast
  from getLocksGeneral_pred[of "\<lambda>s. True" "currentNonProvisionalByUser u" "\<lambda>l. \<not> provisional l", OF g2 assms(1)]
  obtain uls s2 where 3: "getLocksByUser req r u s1 = Some (uls, s2)"
    and 4: "\<forall>l \<in> locksIn uls. \<not> provisional l"
    unfolding getLocksByUser_def by blast
  show ?thesis using first 1 2 3 4 unfolding locksIn_def by blast
qed

theorem provisional_locks_ignored_witness:
  "underBase exPut ''/dav/x/a.txt'' \<and> wfStore exAdapter \<and> wfStore exAdapterProvisional \<and>
   constClock exAdapter 1000 \<and> constClock exAdapterProvisional 1000 \<and>
   (\<forall>p. filter (\<lambda>l. \<not> provisional l) (storedLocks exAdapter p) =
        filter (\<lambda>l. \<not> provisional l) (storedLocks exAdapterProvisional p)) \<and>
   map_option fst (getLockPermission exPut ''/dav/x/a.txt'' ''bob'' exAdapterProvisional) =
   map_option fst (getLockPermission exPut ''/dav/x/a.txt'' ''bob'' exAdapter)"
proof -
  have u: "underBase exPut ''/dav/x/a.txt''"
    by (simp add: underBase_def exPut_def ensureSlash_def)
  have e: "\<forall>p. filter (\<lambda>l. \<not> provisional l) (storedLocks exAdapter p) =
        filter (\<lambda>l. \<not> provisional l) (storedLocks exAdapterProvisional p)"
    by (simp add: exAdapter_def exAdapterProvisional_def exProvisional_def)
  from provisional_locks_ignored[OF u exAdapter_wf exAdapterProvisional_wf exAdapter_const
      exAdapterProvisional_const e, of "''bob''"]
  obtain code sf sf' where
    "getLockPermission exPut ''/dav/x/a.txt'' ''bob'' exAdapter = Some (code, sf)"
    "getLockPermission exPut ''/dav/x/a.txt'' ''bob'' exAdapterProvisional = Some (code, sf')"
    by blast
  then show ?thesis
    using u e exAdapter_wf exAdapterProvisional_wf exAdapter_const exAdapterProvisional_const
    by simp
qed

section \<open>The property store and the lock class of the file-system adapter\<close>

text \<open>
  C7. For a name among the eight live properties and any value, \<open>Properties.set\<close>
  throws \<open>PropertyIsProtectedError\<close> and leaves the file system as it was: no file is
  read or written, and the stored properties are unchanged.
\<close>

theorem Properties_set_protected:
  assumes "name \<in> {''creationdate'', ''getcontentlength'', ''getcontenttype'', ''getetag'',
                     ''getlastmodified'', ''lockdiscovery'', ''resourcetype'', ''supportedlock''}"
  shows "Properties_set res name val s =
           (Inl (PropertyIsProtectedError (name @ '' is a protected property.'')), s) \<and>
         iolog (snd (Properties_set res name val s)) = iolog s \<and>
         files (snd (Properties_set res name val s)) = files s"
proof -
  from assms have "name \<in> set liveProperties" by (simp add: liveProperties_def)
  then show ?thesis by (simp add: Properties_set_def)
qed

theorem Properties_set_protected_witness:
  "''getetag'' \<in> {''creationdate'', ''getcontentlength'', ''getcontenttype'', ''getetag'',
                   ''getlastmodified'', ''lockdiscovery'', ''resourcetype'', ''supportedlock''} \<and>
   Properties_set \<lparr>propFilePath = ''/srv/f.props''\<rparr> ''getetag'' (Some ''x'')
       \<lparr>files = Map.empty, denied = (\<lambda>p. False), iolog = []\<rparr> =
     (Inl (PropertyIsProtectedError ''getetag is a protected property.''),
      \<lparr>files = Map.empty, denied = (\<lambda>p. False), iolog = []\<rparr>)"
  using Properties_set_protected[of "''getetag''" "\<lparr>propFilePath = ''/srv/f.props''\<rparr>" "Some ''x''"
      "\<lparr>files = Map.empty, denied = (\<lambda>p. False), iolog = []\<rparr>"]
  by simp

text \<open>A name that is not live makes \<open>set\<close> read the property file.\<close>

lemma Properties_set_dead_reads:
  "name \<notin> set liveProperties \<Longrightarrow>
   iolog (snd (Properties_set res name val s)) \<noteq> iolog s"
  by (auto simp: Properties_set_def loadProps_def readFile_def writeFile_def Let_def
      split: prod.splits sum.splits fsfile.splits option.splits if_splits)

text \<open>
  Names inherited from \<open>Object.prototype\<close>: removing \<open>toString\<close> where it is not
  stored, and storing \<open>__proto__\<close>, change nothing in the document and still count as
  a change, so that the file is written.
\<close>

lemma updateProps_inherited:
  "updateProps ''toString'' None [''*'' \<mapsto> Map.empty] = ([''*'' \<mapsto> Map.empty], True) \<and>
   updateProps ''__proto__'' (Some v) [''*'' \<mapsto> Map.empty] = ([''*'' \<mapsto> Map.empty], True)"
  by (simp add: updateProps_def inObject_def objectPrototypeNames_def assign_def)

text \<open>
  C8. Where the metadata document of the resource can be read and written,
  \<open>Lock.save\<close> succeeds; afterwards the document holds under the token of the lock
  the record of the username of its user, its date, timeout, exclusive flag, depth and
  provisional flag. The entries under other tokens, the properties in the document and
  the documents of other resources are unchanged.
\<close>

theorem Lock_save_entry:
  assumes "\<not> unavailable s (l_resource l)"
  shows "\<exists>s'. Lock_save l s = Inr s' \<and>
           locksOfDoc (documents s' (l_resource l)) (l_token l) =
             Some \<lparr>e_username = username (l_user l), e_date = l_date l,
                   e_timeout = l_timeout l, e_exclusive = l_exclusive l,
                   e_depth = l_depth l, e_provisional = l_provisional l\<rparr> \<and>
           (\<forall>t. t \<noteq> l_token l \<longrightarrow>
              locksOfDoc (documents s' (l_resource l)) t =
              locksOfDoc (documents s (l_resource l)) t) \<and>
           m_props (documents s' (l_resource l)) = m_props (documents s (l_resource l)) \<and>
           (\<forall>r. r \<noteq> l_resource l \<longrightarrow> documents s' r = documents s r) \<and>
           unavailable s' = unavailable s"
  using assms
  by (simp add: Lock_save_def readMetadataFile_def saveMetadataFile_def locksOfDoc_def
      entryOf_def Let_def split: option.splits)

theorem Lock_save_entry_witness:
  "\<not> unavailable \<lparr>documents = (\<lambda>r. \<lparr>m_props = None, m_locks = None\<rparr>), unavailable = (\<lambda>r. False)\<rparr> ''/srv/a'' \<and>
   (\<exists>s'. Lock_save \<lparr>l_token = ''t1'', l_resource = ''/srv/a'', l_user = \<lparr>username = ''alice''\<rparr>,
                      l_date = 1000, l_timeout = 172800000, l_exclusive = True,
                      l_depth = DepthZero, l_provisional = False\<rparr>
                    \<lparr>documents = (\<lambda>r. \<lparr>m_props = None, m_locks = None\<rparr>), unavailable = (\<lambda>r. False)\<rparr> = Inr s' \<and>
         locksOfDoc (documents s' ''/srv/a'') ''t1'' =
           Some \<lparr>e_username = ''alice'', e_date = 1000, e_timeout = 172800000,
                 e_exclusive = True, e_depth = DepthZero, e_provisional = False\<rparr>)"
  using Lock_save_entry[of "\<lparr>documents = (\<lambda>r. \<lparr>m_props = None, m_locks = None\<rparr>), unavailable = (\<lambda>r. False)\<rparr>"
      "\<lparr>l_token = ''t1'', l_resource = ''/srv/a'', l_user = \<lparr>username = ''alice''\<rparr>,
                      l_date = 1000, l_timeout = 172800000, l_exclusive = True,
                      l_depth = DepthZero, l_provisional = False\<rparr>"]
  by auto

section \<open>Content encoding\<close>

lemma default_entries:
  "map parseEntry (splitOn CHR '','' ''identity, *;q=0.5'') =
     [(''identity'', Finite 1), (''*'', Finite (1 / 2))]"
  by code_simp

lemma pick_default:
  "pick (parseAcceptEncoding pf ''identity, *;q=0.5'') = Inr (''identity'', [(''*'', Finite (1 / 2))])"
proof -
  have "sortEncodings pf [(''identity'', Finite 1), (''*'', Finite (1 / 2))] =
        [(''identity'', Finite 1), (''*'', Finite (1 / 2))]"
    by (simp add: sortEncodings_def consistentComparator_def sortBy_def)
  then have "parseAcceptEncoding pf ''identity, *;q=0.5'' =
             [(''identity'', Finite 1), (''*'', Finite (1 / 2))]"
    by (simp only: parseAcceptEncoding_def default_entries)
  then show ?thesis by (simp add: supported_def)
qed

lemma sendBodyContent_identity:
  "sendBodyContent pf resp content ''identity'' =
     (vary pf resp ''Accept-Encoding'')
       \<lparr>r_headers := (r_headers (vary pf resp ''Accept-Encoding''))
                        (''Content-Length'' \<mapsto> Num (length (utf8 content))),
        r_sent := Some (utf8 content)\<rparr>"
  by (simp add: sendBodyContent_def Let_def)

text \<open>
  C10. For a request without an \<open>Accept-Encoding\<close> header
  \<open>getRequestedEncoding\<close> returns what it returns for the header
  \<open>identity, *;q=0.5\<close>, which is \<open>identity\<close>; with that encoding
  \<open>sendBodyContent\<close> sends the UTF-8 bytes of the content as they are, sets
  \<open>Content-Length\<close> to their number and leaves \<open>Content-Encoding\<close> as it was.
\<close>

theorem no_Accept_Encoding_identity:
  assumes "get req ''Accept-Encoding'' = None"
  shows "getRequestedEncoding pf req =
           getRequestedEncoding pf
             (req\<lparr>headers := (headers req)(''Accept-Encoding'' \<mapsto> ''identity, *;q=0.5'')\<rparr>) \<and>
         (\<exists>enc. getRequestedEncoding pf req = Inr enc \<and> enc = ''identity'' \<and>
            r_sent (sendBodyContent pf resp content enc) = Some (utf8 content) \<and>
            r_headers (sendBodyContent pf resp content enc) ''Content-Length'' =
              Some (Num (length (utf8 content))) \<and>
            r_headers (sendBodyContent pf resp content enc) ''Content-Encoding'' =
              r_headers resp ''Content-Encoding'')"
proof -
  have 1: "getRequestedEncoding pf req = Inr ''identity''"
    using assms by (simp add: getRequestedEncoding_def getOr_def pick_default)
  have 2: "getRequestedEncoding pf
             (req\<lparr>headers := (headers req)(''Accept-Encoding'' \<mapsto> ''identity, *;q=0.5'')\<rparr>) =
           Inr ''identity''"
    by (simp add: getRequestedEncoding_def getOr_def get_def pick_default)
  have 3: "r_headers (sendBodyContent pf resp content ''identity'') ''Content-Encoding'' =
           r_headers resp ''Content-Encoding''"
    by (simp add: sendBodyContent_identity vary_def)
  show ?thesis using 1 2 3 by (simp add: sendBodyContent_identity)
qed

theorem no_Accept_Encoding_identity_witness:
  "get exPut ''Accept-Encoding'' = None \<and>
   getRequestedEncoding exPlatform exPut = Inr ''identity'' \<and>
   r_sent (sendBodyContent exPlatform exResponse [104, 233, 8364] ''identity'') =
     Some [104, 195, 169, 226, 130, 172] \<and>
   r_headers (sendBodyContent exPlatform exResponse [104, 233, 8364] ''identity'') ''Content-Length'' =
     Some (Num 6) \<and>
   r_headers (sendBodyContent exPlatform exResponse [104, 233, 8364] ''identity'') ''Content-Encoding'' =
     None"
proof -
  have h: "get exPut ''Accept-Encoding'' = None" by (simp add: get_def exPut_def)
  have u: "utf8 [104, 233, 8364] = [104, 195, 169, 226, 130, 172]"
    by (simp add: utf8_def utf8Char_def)
  have r: "r_headers exResponse ''Content-Encoding'' = None" by (simp add: exResponse_def)
  from no_Accept_Encoding_identity[OF h, of exPlatform exResponse "[104, 233, 8364]"]
  show ?thesis using h u r by auto
qed

subsection \<open>The numbers of \<open>parseFloat\<close>\<close>

text \<open>
  Decimals that are not doubles are rounded, so that different literals can give one
  number; a literal beyond the doubles gives \<open>Infinity\<close>.
\<close>

lemma parseFloat_rounds:
  "parseFloat ''0.50000000000000001'' = parseFloat ''0.5'' \<and>
   parseFloat ''0.5'' = Finite (1 / 2) \<and>
   parseFloat ''0.1'' = Finite (3602879701896397 / 36028797018963968) \<and>
   parseFloat ''9007199254740993'' = Finite 9007199254740992"
  by code_simp

lemma parseFloat_overflows: "parseFloat ''1e400'' = PosInfinity \<and> parseFloat ''1e401'' = PosInfinity"
  by code_simp

subsection \<open>The choice of getRequestedEncoding\<close>

lemma recognised_set:
  "(n \<in> set (supported @ [''x-gzip'', ''*''])) = isRecognised n"
  unfolding isRecognised_def supported_def by auto

lemma pick_Cons:
  "pick (e # es) = (if isRecognised (fst e) then Inr (fst e, es) else pick es)"
  by (simp only: pick.simps recognised_set)

declare pick.simps(2) [simp del]

lemma supported_recognised: "c \<in> set supported \<Longrightarrow> isRecognised c \<and> c \<noteq> ''*''"
  unfolding isRecognised_def supported_def by auto

lemma set_insertBy: "set (insertBy cmp x ys) = insert x (set ys)"
  by (induction ys) auto

lemma set_sortBy: "set (sortBy cmp xs) = set xs"
  by (induction xs) (simp_all add: sortBy_def set_insertBy)

lemma set_sortEncodings:
  "set (sortImplDefined pf es) = set es \<Longrightarrow> set (sortEncodings pf es) = set es"
  by (simp add: sortEncodings_def set_sortBy)

lemma finite_consistent:
  assumes "\<forall>y \<in> set es. isFinite (snd y)"
  shows "consistentComparator (map snd es)"
proof -
  have "NaN \<notin> set (map snd es)" using assms by force
  then show ?thesis by (simp only: consistentComparator_def if_False)
qed

lemma insertBy_insort:
  assumes "isFinite (snd x)" "\<forall>y \<in> set ys. isFinite (snd y)"
  shows "insertBy (\<lambda>a b. numSub (snd b) (snd a)) x ys = insort_key (\<lambda>e. - qOf (snd e)) x ys"
  using assms
proof (induction ys)
  case Nil
  then show ?case by simp
next
  case (Cons y ys)
  obtain a where a: "snd x = Finite a" using Cons.prems(1) by (cases "snd x") auto
  obtain b where b: "snd y = Finite b" using Cons.prems(2) by (cases "snd y") auto
  have ys: "\<forall>y \<in> set ys. isFinite (snd y)" using Cons.prems(2) by simp
  show ?case using Cons.IH[OF Cons.prems(1) ys] a b by auto
qed

lemma sortBy_sort_key:
  assumes "\<forall>y \<in> set xs. isFinite (snd y)"
  shows "sortBy (\<lambda>a b. numSub (snd b) (snd a)) xs = sort_key (\<lambda>e. - qOf (snd e)) xs"
  using assms
proof (induction xs)
  case Nil
  then show ?case by (simp add: sortBy_def)
next
  case (Cons x xs)
  have ih: "sortBy (\<lambda>a b. numSub (snd b) (snd a)) xs = sort_key (\<lambda>e. - qOf (snd e)) xs"
    using Cons by simp
  have fin: "\<forall>y \<in> set (sort_key (\<lambda>e. - qOf (snd e)) xs). isFinite (snd y)"
    using Cons.prems by simp
  have x: "isFinite (snd x)" using Cons.prems by simp
  have "sortBy (\<lambda>a b. numSub (snd b) (snd a)) (x # xs) =
        insertBy (\<lambda>a b. numSub (snd b) (snd a)) x (sortBy (\<lambda>a b. numSub (snd b) (snd a)) xs)"
    by (simp add: sortBy_def)
  also have "\<dots> = insort_key (\<lambda>e. - qOf (snd e)) x (sort_key (\<lambda>e. - qOf (snd e)) xs)"
    unfolding ih by (rule insertBy_insort[OF x fin])
  finally show ?case by simp
qed

lemma sortEncodings_sort_key:
  assumes "\<forall>y \<in> set es. isFinite (snd y)"
  shows "sortEncodings pf es = sort_key (\<lambda>e. - qOf (snd e)) es"
  using finite_consistent[OF assms] sortBy_sort_key[OF assms]
  by (simp only: sortEncodings_def if_True)

lemma pick_Inl:
  "(pick xs = Inl e) =
     (e = EncodingNotSupportedError ''Requested content encoding is not supported.'' \<and>
      filter (\<lambda>e. isRecognised (fst e)) xs = [])"
  by (induction xs) (auto simp: pick_Cons)

lemma pick_Inr:
  "pick xs = Inr (n, rest) \<Longrightarrow>
   \<exists>pre e. xs = pre @ e # rest \<and> fst e = n \<and> isRecognised n \<and>
           (\<forall>x \<in> set pre. \<not> isRecognised (fst x))"
proof (induction xs)
  case Nil
  then show ?case by simp
next
  case (Cons x xs)
  show ?case
  proof (cases "isRecognised (fst x)")
    case True
    then have "n = fst x \<and> rest = xs" using Cons.prems by (simp add: pick_Cons)
    then have "x # xs = [] @ x # rest \<and> fst x = n \<and> isRecognised n \<and>
               (\<forall>y \<in> set []. \<not> isRecognised (fst y))"
      using True by simp
    then show ?thesis by blast
  next
    case False
    then have "pick xs = Inr (n, rest)" using Cons.prems by (simp add: pick_Cons)
    from Cons.IH[OF this] obtain pre e where
      p: "xs = pre @ e # rest" "fst e = n" "isRecognised n" "\<forall>x \<in> set pre. \<not> isRecognised (fst x)"
      by blast
    have "x # xs = (x # pre) @ e # rest \<and> fst e = n \<and> isRecognised n \<and>
          (\<forall>y \<in> set (x # pre). \<not> isRecognised (fst y))"
      using False p by simp
    then show ?thesis by blast
  qed
qed

lemma wildcard_choice:
  assumes xs: "xs = pre @ e # rest" and e: "fst e = ''*''"
    and pre: "\<forall>x \<in> set pre. \<not> isRecognised (fst x)"
  shows "(case find (\<lambda>check. find (\<lambda>e. check = fst e) rest = None) supported of
            None \<Rightarrow> ''gzip'' | Some c \<Rightarrow> c) = firstUnlisted (map fst xs)"
proof -
  have "find (\<lambda>check. find (\<lambda>e. check = fst e) rest = None) supported =
        find (\<lambda>c. c \<notin> set (map fst xs)) supported"
  proof (rule find_cong[OF refl])
    fix c assume c: "c \<in> set supported"
    from supported_recognised[OF c] have r: "isRecognised c" and s: "c \<noteq> ''*''" by simp_all
    have "c \<notin> fst ` set pre" using pre r by auto
    then have 1: "(c \<in> set (map fst xs)) = (c \<in> fst ` set rest)" using xs e s by auto
    have 2: "(find (\<lambda>e. c = fst e) rest = None) = (c \<notin> fst ` set rest)"
      by (force simp: find_None_iff)
    show "(find (\<lambda>e. c = fst e) rest = None) = (c \<notin> set (map fst xs))"
      unfolding 1 by (rule 2)
  qed
  then show ?thesis by (simp add: firstUnlisted_def)
qed

lemma firstUnlisted_supported: "firstUnlisted names \<in> set supported"
proof (cases "find (\<lambda>c. c \<notin> set names) supported")
  case None
  then show ?thesis by (simp add: firstUnlisted_def supported_def)
next
  case (Some c)
  then have "c \<in> set supported" by (auto simp: find_Some_iff)
  then show ?thesis using Some by (simp add: firstUnlisted_def)
qed

lemma firstUnlisted_set: "set names = set names' \<Longrightarrow> firstUnlisted names = firstUnlisted names'"
  by (simp add: firstUnlisted_def)

lemma hd_sort_key:
  assumes "xs \<noteq> []"
  shows "hd (sort_key f xs) \<in> set xs \<and> (\<forall>x \<in> set xs. f (hd (sort_key f xs)) \<le> f x) \<and>
         hd (sort_key f xs) = hd (filter (\<lambda>x. f x = f (hd (sort_key f xs))) xs)"
proof -
  let ?s = "sort_key f xs"
  have "length ?s = length xs" by simp
  then have ne: "?s \<noteq> []" using assms by (cases ?s) auto
  then obtain h t where ht: "?s = h # t" by (cases ?s) auto
  have st: "set ?s = set xs" by simp
  then have 1: "h \<in> set xs" using ht by auto
  have "sorted (map f ?s)" by simp
  then have "\<forall>x \<in> set t. f h \<le> f x" unfolding ht by simp
  then have 2: "\<forall>x \<in> set xs. f h \<le> f x" using st unfolding ht by auto
  have "filter (\<lambda>x. f x = f h) ?s = filter (\<lambda>x. f x = f h) xs" by (rule sort_key_stable)
  then have "filter (\<lambda>x. f x = f h) xs = h # filter (\<lambda>x. f x = f h) t" unfolding ht by simp
  then have 3: "hd (filter (\<lambda>x. f x = f h) xs) = h" by simp
  show ?thesis unfolding ht using 1 2 3 by simp
qed

lemma getRequestedEncoding_pick:
  "getRequestedEncoding pf req =
     (case pick (sortEncodings pf (headerEntries req)) of
        Inl e \<Rightarrow> Inl e
      | Inr (encoding, encodings) \<Rightarrow>
          Inr (if encoding = ''*''
               then (case find (\<lambda>check. find (\<lambda>e. check = fst e) encodings = None) supported of
                       None \<Rightarrow> ''gzip'' | Some c \<Rightarrow> c)
               else encoding))"
  by (simp add: getRequestedEncoding_def headerEntries_def parseAcceptEncoding_def)

lemma recognised_not_star:
  "isRecognised n \<Longrightarrow> n \<noteq> ''*'' \<Longrightarrow> n \<in> {''gzip'', ''x-gzip'', ''deflate'', ''br'', ''identity''}"
  unfolding isRecognised_def by auto

lemma supported_sub:
  "c \<in> set supported \<Longrightarrow> c \<in> {''gzip'', ''x-gzip'', ''deflate'', ''br'', ''identity''}"
  unfolding supported_def by auto

lemma getRequestedEncoding_Inl:
  assumes perm: "set (sortImplDefined pf (headerEntries req)) = set (headerEntries req)"
  shows "(getRequestedEncoding pf req = Inl e) =
     (e = EncodingNotSupportedError ''Requested content encoding is not supported.'' \<and>
      recognisedEntries req = [])"
proof -
  let ?sorted = "sortEncodings pf (headerEntries req)"
  have "(filter (\<lambda>e. isRecognised (fst e)) ?sorted = []) = (recognisedEntries req = [])"
    by (simp add: filter_empty_conv set_sortEncodings[OF perm] recognisedEntries_def)
  moreover have "(getRequestedEncoding pf req = Inl e) = (pick ?sorted = Inl e)"
    by (simp add: getRequestedEncoding_pick split: sum.splits prod.splits)
  ultimately show ?thesis by (simp add: pick_Inl)
qed

lemma getRequestedEncoding_Inr:
  assumes perm: "set (sortImplDefined pf (headerEntries req)) = set (headerEntries req)"
    and ne: "recognisedEntries req \<noteq> []"
  shows "\<exists>chosen \<in> set (recognisedEntries req).
           getRequestedEncoding pf req =
             Inr (if fst chosen = ''*'' then firstUnlisted (map fst (headerEntries req))
                  else fst chosen) \<and>
           ((\<forall>e \<in> set (headerEntries req). isFinite (snd e)) \<longrightarrow>
              (\<forall>e \<in> set (recognisedEntries req). qOf (snd e) \<le> qOf (snd chosen)) \<and>
              chosen = hd (filter (\<lambda>e. qOf (snd e) = qOf (snd chosen)) (recognisedEntries req)))"
proof -
  let ?es = "headerEntries req"
  let ?rs = "recognisedEntries req"
  let ?sorted = "sortEncodings pf ?es"
  note set_sorted = set_sortEncodings[OF perm]
  have "\<not> (\<exists>e. pick ?sorted = Inl e)"
  proof
    assume "\<exists>e. pick ?sorted = Inl e"
    then have "filter (\<lambda>e. isRecognised (fst e)) ?sorted = []" by (auto simp: pick_Inl)
    then have "?rs = []" by (simp add: filter_empty_conv set_sorted recognisedEntries_def)
    with ne show False by simp
  qed
  then obtain n rest where pk: "pick ?sorted = Inr (n, rest)"
    by (cases "pick ?sorted") auto
  from pick_Inr[OF pk] obtain pre e where
    dec: "?sorted = pre @ e # rest" and n: "fst e = n" and rn: "isRecognised n"
    and pre: "\<forall>x \<in> set pre. \<not> isRecognised (fst x)" by blast
  have "e \<in> set ?sorted" using dec by simp
  then have ees: "e \<in> set ?es" by (simp add: set_sorted)
  then have ers: "e \<in> set ?rs" using n rn by (simp add: recognisedEntries_def)
  have names: "set (map fst ?sorted) = set (map fst ?es)" by (simp add: set_sorted)
  have res: "getRequestedEncoding pf req =
               Inr (if fst e = ''*'' then firstUnlisted (map fst ?es) else fst e)"
  proof (cases "fst e = ''*''")
    case True
    from wildcard_choice[OF dec True pre] firstUnlisted_set[OF names]
    show ?thesis using True n pk by (simp add: getRequestedEncoding_pick)
  next
    case False
    then show ?thesis using n pk by (simp add: getRequestedEncoding_pick)
  qed
  have hdf: "filter (\<lambda>e. isRecognised (fst e)) ?sorted = e # filter (\<lambda>e. isRecognised (fst e)) rest"
    using pre n rn by (simp add: dec filter_empty_conv)
  have fin: "(\<forall>e \<in> set ?es. isFinite (snd e)) \<longrightarrow>
              (\<forall>x \<in> set ?rs. qOf (snd x) \<le> qOf (snd e)) \<and>
              e = hd (filter (\<lambda>x. qOf (snd x) = qOf (snd e)) ?rs)"
  proof
    assume f: "\<forall>e \<in> set ?es. isFinite (snd e)"
    let ?f = "\<lambda>e::string \<times> number. - qOf (snd e)"
    have "?sorted = sort_key ?f ?es" using f by (rule sortEncodings_sort_key)
    then have "filter (\<lambda>e. isRecognised (fst e)) ?sorted = sort_key ?f ?rs"
      by (simp add: filter_sort recognisedEntries_def)
    then have "sort_key ?f ?rs = e # filter (\<lambda>e. isRecognised (fst e)) rest"
      using hdf by (rule subst)
    then have h: "hd (sort_key ?f ?rs) = e" by (simp only: list.sel)
    from hd_sort_key[OF ne, of ?f] h
    have a: "\<forall>x \<in> set ?rs. ?f e \<le> ?f x" and b: "e = hd (filter (\<lambda>x. ?f x = ?f e) ?rs)"
      by simp_all
    have "filter (\<lambda>x. ?f x = ?f e) ?rs = filter (\<lambda>x. qOf (snd x) = qOf (snd e)) ?rs"
      by (rule filter_cong) auto
    then show "(\<forall>x \<in> set ?rs. qOf (snd x) \<le> qOf (snd e)) \<and>
              e = hd (filter (\<lambda>x. qOf (snd x) = qOf (snd e)) ?rs)"
      using a b by simp
  qed
  show ?thesis using ers res fin by blast
qed

lemma exGetEmpty_result: "getRequestedEncoding exPlatform exGetEmpty = Inr ''identity''"
  by (simp add: getRequestedEncoding_def getOr_def get_def exGetEmpty_def pick_default)

lemma empty_header_names: "map (fst \<circ> parseEntry) (splitOn CHR '','' []) = [[]]"
  by code_simp

text \<open>
  C6, as stated: an \<open>Accept-Encoding\<close> header that is present and empty lists no
  supported encoding and no \<open>*\<close>, and \<open>getRequestedEncoding\<close> returns
  \<open>identity\<close> instead of throwing.
\<close>

theorem empty_Accept_Encoding_not_rejected:
  "get exGetEmpty ''Accept-Encoding'' = Some [] \<and>
   map (fst \<circ> parseEntry) (splitOn CHR '','' []) = [[]] \<and>
   \<not> isRecognised [] \<and>
   getRequestedEncoding exPlatform exGetEmpty = Inr ''identity''"
  using exGetEmpty_result empty_header_names
  by (simp add: get_def exGetEmpty_def isRecognised_def)

text \<open>
  C6, amended. The header is the one of the request, or \<open>identity, *;q=0.5\<close> when the
  request has none or an empty one, and the sort returns the entries it is given, in
  whatever order. \<open>getRequestedEncoding\<close> returns only
  \<open>gzip\<close>, \<open>x-gzip\<close>, \<open>deflate\<close>, \<open>br\<close> or \<open>identity\<close>; it throws only
  \<open>EncodingNotSupportedError\<close>, and it throws iff no entry of the header names a
  supported encoding, \<open>x-gzip\<close> or \<open>*\<close>. Otherwise it answers for one of those
  entries: with its name, or, where that is \<open>*\<close>, with the first of \<open>gzip\<close>,
  \<open>deflate\<close>, \<open>br\<close>, \<open>identity\<close> that no entry of the header names, or
  \<open>gzip\<close>. Where all q-values are finite numbers, the entry is the one with the
  greatest q-value as \<open>parseFloat\<close> reads it, the first in the header among equals.
\<close>

theorem getRequestedEncoding_choice:
  assumes "set (sortImplDefined pf (headerEntries req)) = set (headerEntries req)"
  shows
  "(\<forall>enc. getRequestedEncoding pf req = Inr enc \<longrightarrow>
      enc \<in> {''gzip'', ''x-gzip'', ''deflate'', ''br'', ''identity''}) \<and>
   (\<forall>e. getRequestedEncoding pf req = Inl e \<longrightarrow>
      e = EncodingNotSupportedError ''Requested content encoding is not supported.'') \<and>
   ((\<exists>e. getRequestedEncoding pf req = Inl e) =
      (\<forall>e \<in> set (headerEntries req). \<not> isRecognised (fst e))) \<and>
   (recognisedEntries req \<noteq> [] \<longrightarrow>
      (\<exists>chosen \<in> set (recognisedEntries req).
         getRequestedEncoding pf req =
           Inr (if fst chosen = ''*'' then firstUnlisted (map fst (headerEntries req))
                else fst chosen) \<and>
         ((\<forall>e \<in> set (headerEntries req). isFinite (snd e)) \<longrightarrow>
            (\<forall>e \<in> set (recognisedEntries req). qOf (snd e) \<le> qOf (snd chosen)) \<and>
            chosen = hd (filter (\<lambda>e. qOf (snd e) = qOf (snd chosen)) (recognisedEntries req)))))"
proof -
  note Inl_iff = getRequestedEncoding_Inl[OF assms]
  have 1: "\<forall>enc. getRequestedEncoding pf req = Inr enc \<longrightarrow>
      enc \<in> {''gzip'', ''x-gzip'', ''deflate'', ''br'', ''identity''}"
  proof (intro allI impI)
    fix enc assume r: "getRequestedEncoding pf req = Inr enc"
    have "recognisedEntries req \<noteq> []"
      using r Inl_iff by (cases "recognisedEntries req = []") auto
    from getRequestedEncoding_Inr[OF assms this] obtain chosen where
      c: "chosen \<in> set (recognisedEntries req)"
      and e: "getRequestedEncoding pf req =
             Inr (if fst chosen = ''*'' then firstUnlisted (map fst (headerEntries req))
                  else fst chosen)" by blast
    have rc: "isRecognised (fst chosen)" using c by (simp add: recognisedEntries_def)
    show "enc \<in> {''gzip'', ''x-gzip'', ''deflate'', ''br'', ''identity''}"
    proof (cases "fst chosen = ''*''")
      case True
      then have "enc = firstUnlisted (map fst (headerEntries req))" using r e by simp
      then show ?thesis using supported_sub[OF firstUnlisted_supported] by simp
    next
      case False
      then have "enc = fst chosen" using r e by simp
      then show ?thesis using recognised_not_star[OF rc False] by simp
    qed
  qed
  have 2: "\<forall>e. getRequestedEncoding pf req = Inl e \<longrightarrow>
      e = EncodingNotSupportedError ''Requested content encoding is not supported.''"
    by (simp add: Inl_iff)
  have 3: "(\<exists>e. getRequestedEncoding pf req = Inl e) =
      (\<forall>e \<in> set (headerEntries req). \<not> isRecognised (fst e))"
    by (simp add: Inl_iff recognisedEntries_def filter_empty_conv)
  show ?thesis using 1 2 3 getRequestedEncoding_Inr[OF assms] by blast
qed

lemma exGetBr_entries:
  "headerEntries exGetBr =
     [(''compress'', Finite 1), (''gzip'', Finite (1 / 2)),
      (''br'', Finite (3602879701896397 / 4503599627370496)),
      (''*'', Finite (3602879701896397 / 36028797018963968))]"
  by code_simp

lemma exGetBr_recognised:
  "recognisedEntries exGetBr =
     [(''gzip'', Finite (1 / 2)), (''br'', Finite (3602879701896397 / 4503599627370496)),
      (''*'', Finite (3602879701896397 / 36028797018963968))]"
  by (simp add: recognisedEntries_def exGetBr_entries isRecognised_def)

theorem getRequestedEncoding_choice_witness:
  "set (sortImplDefined exPlatform (headerEntries exGetBr)) = set (headerEntries exGetBr) \<and>
   recognisedEntries exGetBr =
     [(''gzip'', Finite (1 / 2)), (''br'', Finite (3602879701896397 / 4503599627370496)),
      (''*'', Finite (3602879701896397 / 36028797018963968))] \<and>
   map snd (headerEntries exGetBr) =
     [Finite 1, Finite (1 / 2), Finite (3602879701896397 / 4503599627370496),
      Finite (3602879701896397 / 36028797018963968)] \<and>
   getRequestedEncoding exPlatform exGetBr = Inr ''br''"
proof -
  have perm: "set (sortImplDefined exPlatform (headerEntries exGetBr)) = set (headerEntries exGetBr)"
    by (simp add: exPlatform_def)
  have ne: "recognisedEntries exGetBr \<noteq> []" by (simp add: exGetBr_recognised)
  have fin: "\<forall>e \<in> set (headerEntries exGetBr). isFinite (snd e)" by (simp add: exGetBr_entries)
  from getRequestedEncoding_choice[OF perm] ne fin obtain chosen where
    c: "chosen \<in> set (recognisedEntries exGetBr)" and
    r: "getRequestedEncoding exPlatform exGetBr =
          Inr (if fst chosen = ''*'' then firstUnlisted (map fst (headerEntries exGetBr))
               else fst chosen)" and
    m: "\<forall>e \<in> set (recognisedEntries exGetBr). qOf (snd e) \<le> qOf (snd chosen)"
    by blast
  have "chosen = (''br'', Finite (3602879701896397 / 4503599627370496))"
    using c m by (auto simp: exGetBr_recognised)
  then have "getRequestedEncoding exPlatform exGetBr = Inr ''br''" using r by simp
  then show ?thesis using perm by (simp add: exGetBr_recognised exGetBr_entries)
qed

text \<open>
  Two q-values that are one double: the entries compare as equal, and the first in the
  header is chosen.
\<close>

lemma exGetTie_result: "getRequestedEncoding pf exGetTie = Inr ''gzip''"
proof -
  have "map parseEntry (splitOn CHR '','' ''gzip;q=0.5, br;q=0.50000000000000001'') =
        [(''gzip'', Finite (1 / 2)), (''br'', Finite (1 / 2))]"
    by code_simp
  then have "parseAcceptEncoding pf ''gzip;q=0.5, br;q=0.50000000000000001'' =
             [(''gzip'', Finite (1 / 2)), (''br'', Finite (1 / 2))]"
    by (simp add: parseAcceptEncoding_def sortEncodings_def consistentComparator_def sortBy_def)
  then show ?thesis
    by (simp add: getRequestedEncoding_def getOr_def get_def exGetTie_def pick_Cons isRecognised_def)
qed

section \<open>The lock views\<close>

text \<open>
  What holds of the views for a resource below the mount path: \<open>all\<close> is the union
  of \<open>resource\<close>, \<open>depthZero\<close> and \<open>depthInfinity\<close>, and the latter two hold locks
  of depth 0 and of depth infinity.
\<close>

lemma addParentLock_ok: "viewsOk ls \<Longrightarrow> viewsOk (addParentLock f ls l)"
  by (auto simp: viewsOk_def addParentLock_def)

lemma foldl_addParentLock_ok: "viewsOk ls \<Longrightarrow> viewsOk (foldl (addParentLock f) ls xs)"
  by (induction xs arbitrary: ls) (simp_all add: addParentLock_ok)

lemma visitParents_ok: "viewsOk ls \<Longrightarrow> viewsOk (fst (visitParents g f ls ps s))"
  by (induction ps arbitrary: f ls s) (simp_all add: foldl_addParentLock_ok case_prod_beta)

lemma getLocksGeneral_ok:
  assumes "underBase req r"
  shows "\<exists>ls s'. getLocksGeneral req r g s = Some (ls, s') \<and> viewsOk ls"
proof -
  from chain_exists[OF assms] obtain ps where ch: "parentChain req (getParentResource req r) ps" ..
  let ?ls = "\<lparr>all = fst (g r s), resource = fst (g r s), depthZero = [], depthInfinity = []\<rparr>"
  have "viewsOk ?ls" by (simp add: viewsOk_def)
  then have "viewsOk (fst (visitParents g True ?ls ps (snd (g r s))))" by (rule visitParents_ok)
  moreover have "getLocksGeneral req r g s = Some (visitParents g True ?ls ps (snd (g r s)))"
    by (simp add: getLocksGeneral_def case_prod_beta parentLoop_chain[OF ch])
  ultimately show ?thesis by (metis prod.collapse)
qed

lemma root_parent: "getParentResource exPut ''/dav/a.txt'' = None"
  by code_simp

lemma root_child_views:
  "map_option fst (getLocks exPut ''/dav/a.txt'' exAdapterRoot) =
     Some \<lparr>all = [], resource = [], depthZero = [], depthInfinity = []\<rparr>"
  by code_simp

lemma root_grandchild_views:
  "map_option fst (getLocks exPut ''/dav/x/a.txt'' exAdapterRoot) =
     Some \<lparr>all = [], resource = [], depthZero = [], depthInfinity = []\<rparr>"
  by code_simp

lemma root_child_code:
  "map_option fst (getLockPermission exPut ''/dav/a.txt'' ''bob'' exAdapterRoot) = Some 2"
  by code_simp

text \<open>
  C5. The views are to hold the locks of depth infinity of every proper ancestor and the
  locks of depth 0 of the immediate parent. The code at a root collection \<open>/dav/\<close>
  that holds a lock of each depth: \<open>getParentResource\<close> returns \<open>undefined\<close> for
  the child \<open>/dav/a.txt\<close> of the root, the views of the child and of the grandchild
  \<open>/dav/x/a.txt\<close> are empty, and \<open>getLockPermission\<close> gives the child the
  code 2.
\<close>

theorem root_locks_not_seen:
  "storedLocks exAdapterRoot ''/dav/'' = [exRootInfinity, exRootZero] \<and>
   depth exRootInfinity = DepthInfinity \<and> depth exRootZero = DepthZero \<and>
   getParentResource exPut ''/dav/a.txt'' = None \<and>
   map_option fst (getLocks exPut ''/dav/a.txt'' exAdapterRoot) =
     Some \<lparr>all = [], resource = [], depthZero = [], depthInfinity = []\<rparr> \<and>
   map_option fst (getLocks exPut ''/dav/x/a.txt'' exAdapterRoot) =
     Some \<lparr>all = [], resource = [], depthZero = [], depthInfinity = []\<rparr> \<and>
   map_option fst (getLockPermission exPut ''/dav/a.txt'' ''bob'' exAdapterRoot) = Some 2"
  using root_parent root_child_views root_grandchild_views root_child_code
  by (simp add: exAdapterRoot_def exRootInfinity_def exRootZero_def)

end
